theory Spec2Isabelle
  imports Complex_Main "HOL-Library.Log_Nat"
begin

section \<open>Data model\<close>

text \<open>
  The script \<^verbatim>\<open>analyze_dumpbinary_logs.py\<close> works on lists of pairs
  \<^verbatim>\<open>(ms, is_fail)\<close>. Python integers are unbounded and are modelled by \<open>int\<close>.
  Python floats are IEEE 754 binary64 numbers; they are modelled by their values, with
  every operation rounded to the nearest representable number, ties to even.
\<close>

type_synonym event = "int \<times> bool"

datatype error =
  ZeroDivisionError | IndexError | ValueError | TypeError | OverflowError | FileNotFoundError

text \<open>Sequencing of computations that may raise.\<close>

definition bind_err :: "error + 'a \<Rightarrow> ('a \<Rightarrow> error + 'b) \<Rightarrow> error + 'b" where
  "bind_err m f = (case m of Inl e \<Rightarrow> Inl e | Inr x \<Rightarrow> f x)"

section \<open>Binary64 floating point\<close>

text \<open>
  A double is a finite number, an infinity or a NaN. The two zeros are not told apart:
  the script never divides by a float zero without raising and never prints through this
  model, and these are the only places where the sign of a zero shows.
\<close>

datatype double = Finite rat | PosInf | NegInf | NaN

text \<open>
  The binary exponent of a positive rational \<open>x\<close>: the \<open>e\<close> with
  \<open>2 powi e \<le> x < 2 powi (e + 1)\<close>.
\<close>

definition expo :: "rat \<Rightarrow> int" where
  "expo x = (if 1 \<le> x then bitlen \<lfloor>x\<rfloor> - 1 else - bitlen (\<lceil>1 / x\<rceil> - 1))"

text \<open>
  The spacing of the doubles around \<open>x\<close>: 53 significant bits, and the spacing of
  the subnormal numbers below \<open>2 powi (-1022)\<close>.
\<close>

definition quantum :: "rat \<Rightarrow> rat" where
  "quantum x = 2 powi (max (expo \<bar>x\<bar>) (- 1022) - 52)"

text \<open>Rounding to the nearest integer, a tie to the even one.\<close>

definition round_even :: "rat \<Rightarrow> int" where
  "round_even r =
     (let f = \<lfloor>r\<rfloor>; d = r - of_int f
      in if d < 1 / 2 then f else if 1 / 2 < d then f + 1 else if even f then f else f + 1)"

text \<open>
  Rounding to the nearest multiple of the spacing, and the result as a double: what
  reaches \<open>2 powi 1024\<close> after rounding is an infinity.
\<close>

definition RN :: "rat \<Rightarrow> rat" where
  "RN x = of_int (round_even (x / quantum x)) * quantum x"

definition round_double :: "rat \<Rightarrow> double" where
  "round_double x =
     (let r = RN x
      in if 2 powi 1024 \<le> r then PosInf else if r \<le> - (2 powi 1024) then NegInf else Finite r)"

text \<open>Addition, subtraction and multiplication of doubles.\<close>

fun fneg :: "double \<Rightarrow> double" where
  "fneg (Finite a) = Finite (- a)"
| "fneg PosInf = NegInf"
| "fneg NegInf = PosInf"
| "fneg NaN = NaN"

fun fadd :: "double \<Rightarrow> double \<Rightarrow> double" where
  "fadd (Finite a) (Finite b) = round_double (a + b)"
| "fadd NaN _ = NaN"
| "fadd _ NaN = NaN"
| "fadd PosInf NegInf = NaN"
| "fadd NegInf PosInf = NaN"
| "fadd PosInf _ = PosInf"
| "fadd NegInf _ = NegInf"
| "fadd _ PosInf = PosInf"
| "fadd _ NegInf = NegInf"

definition fsub :: "double \<Rightarrow> double \<Rightarrow> double" where
  "fsub a b = fadd a (fneg b)"

text \<open>The sign of an infinite product; a zero times an infinity is a NaN.\<close>

definition signed_inf :: "bool \<Rightarrow> double" where
  "signed_inf positive = (if positive then PosInf else NegInf)"

fun fmul :: "double \<Rightarrow> double \<Rightarrow> double" where
  "fmul (Finite a) (Finite b) = round_double (a * b)"
| "fmul NaN _ = NaN"
| "fmul _ NaN = NaN"
| "fmul (Finite a) PosInf = (if a = 0 then NaN else signed_inf (0 < a))"
| "fmul (Finite a) NegInf = (if a = 0 then NaN else signed_inf (a < 0))"
| "fmul PosInf (Finite b) = (if b = 0 then NaN else signed_inf (0 < b))"
| "fmul NegInf (Finite b) = (if b = 0 then NaN else signed_inf (b < 0))"
| "fmul PosInf PosInf = PosInf"
| "fmul PosInf NegInf = NegInf"
| "fmul NegInf PosInf = NegInf"
| "fmul NegInf NegInf = PosInf"

text \<open>
  \<^verbatim>\<open>a / b\<close> on floats raises on a zero divisor; an overflow gives an infinity.
\<close>

fun float_truediv :: "double \<Rightarrow> double \<Rightarrow> error + double" where
  "float_truediv a (Finite b) =
     (if b = 0 then Inl ZeroDivisionError
      else Inr (case a of
                  Finite x \<Rightarrow> round_double (x / b)
                | PosInf \<Rightarrow> signed_inf (0 < b)
                | NegInf \<Rightarrow> signed_inf (b < 0)
                | NaN \<Rightarrow> NaN))"
| "float_truediv a NaN = Inr NaN"
| "float_truediv (Finite x) PosInf = Inr (Finite 0)"
| "float_truediv (Finite x) NegInf = Inr (Finite 0)"
| "float_truediv a b = Inr NaN"

text \<open>
  The conversion of an integer in mixed arithmetic raises OverflowError beyond the range
  of the doubles, and so does the true division of two integers, whose quotient is
  rounded once; division by the integer zero raises ZeroDivisionError.
\<close>

definition finite_or_overflow :: "double \<Rightarrow> error + double" where
  "finite_or_overflow d = (case d of Finite r \<Rightarrow> Inr (Finite r) | _ \<Rightarrow> Inl OverflowError)"

definition float_of_int :: "int \<Rightarrow> error + double" where
  "float_of_int i = finite_or_overflow (round_double (of_int i))"

definition int_truediv :: "int \<Rightarrow> int \<Rightarrow> error + double" where
  "int_truediv a b =
     (if b = 0 then Inl ZeroDivisionError
      else finite_or_overflow (round_double (of_int a / of_int b)))"

text \<open>\<^verbatim>\<open>int(x)\<close> on a float truncates towards zero and raises on an infinity or a NaN.\<close>

fun int_of_float :: "double \<Rightarrow> error + int" where
  "int_of_float (Finite r) = Inr (if 0 \<le> r then \<lfloor>r\<rfloor> else \<lceil>r\<rceil>)"
| "int_of_float NaN = Inl ValueError"
| "int_of_float _ = Inl OverflowError"

text \<open>A Python number is an integer or a float.\<close>

datatype num = I int | F double

section \<open>Python primitives used by the script\<close>

text \<open>\<^verbatim>\<open>xs[i]\<close> reads position \<open>i\<close>, position \<open>len + i\<close> for a negative \<open>i\<close>,
  and raises IndexError outside \<open>-len \<le> i < len\<close>.\<close>

definition py_index :: "'a list \<Rightarrow> int \<Rightarrow> error + 'a" where
  "py_index xs i =
     (if 0 \<le> i \<and> i < int (length xs) then Inr (xs ! nat i)
      else if - int (length xs) \<le> i \<and> i < 0 then Inr (xs ! nat (int (length xs) + i))
      else Inl IndexError)"

text \<open>\<^verbatim>\<open>xs[start:end]\<close>: both bounds are clamped to the list, negative ones count
  from the end; an empty range gives the empty list.\<close>

definition slice_bound :: "nat \<Rightarrow> int \<Rightarrow> nat" where
  "slice_bound len i = (if i < 0 then nat (max 0 (int len + i)) else nat (min i (int len)))"

definition py_slice :: "'a list \<Rightarrow> int \<Rightarrow> int \<Rightarrow> 'a list" where
  "py_slice xs start end =
     (let s = slice_bound (length xs) start; e = slice_bound (length xs) end
      in take (e - s) (drop s xs))"

text \<open>\<^verbatim>\<open>min(xs)\<close> and \<^verbatim>\<open>max(xs)\<close> raise ValueError on an empty list.\<close>

definition py_min :: "int list \<Rightarrow> error + int" where
  "py_min xs = (case xs of [] \<Rightarrow> Inl ValueError | x # r \<Rightarrow> Inr (fold min r x))"

definition py_max :: "int list \<Rightarrow> error + int" where
  "py_max xs = (case xs of [] \<Rightarrow> Inl ValueError | x # r \<Rightarrow> Inr (fold max r x))"

text \<open>\<^verbatim>\<open>sum\<close> over booleans counts the true ones.\<close>

definition count_true :: "bool list \<Rightarrow> int" where
  "count_true bs = sum_list (map (\<lambda>b. if b then 1 else 0) bs)"

text \<open>
  \<^verbatim>\<open>100.0 * a / b\<close> for integers \<open>a\<close> and \<open>b\<close>: \<open>a\<close> is converted and
  multiplied, then \<open>b\<close> is converted and divides.
\<close>

definition percent_rate :: "int \<Rightarrow> int \<Rightarrow> error + double" where
  "percent_rate a b =
     bind_err (float_of_int a) (\<lambda>fa.
     bind_err (float_of_int b) (\<lambda>fb.
       float_truediv (fmul (Finite 100) fa) fb))"

section \<open>percentile\<close>

text \<open>
  \<^verbatim>\<open>
  def percentile(sorted_arr, p):
      if not sorted_arr:
          return 0
      k = (len(sorted_arr) - 1) * p / 100
      f = int(k)
      c = f + 1 if f + 1 < len(sorted_arr) else f
      return sorted_arr[f] + (k - f) * (sorted_arr[c] - sorted_arr[f]) if c > f else sorted_arr[f]
  \<close>
  The callers pass an integer \<open>p\<close>, so \<open>k\<close> is the true division of two integers.
  The conditional expression of the last line binds weakest: the interpolation is the
  branch for \<open>c > f\<close>. Its operands are evaluated from left to right, and an integer
  meeting a float is converted first: \<open>f\<close> in \<open>k - f\<close>, the difference of the two
  elements in the product, the element \<open>sorted_arr[f]\<close> in the sum. The result is an
  integer in the other branch and for the empty array.
\<close>

definition percentile :: "int list \<Rightarrow> int \<Rightarrow> error + num" where
  "percentile sorted_arr p =
     (if sorted_arr = [] then Inr (I 0)
      else
        bind_err (int_truediv ((int (length sorted_arr) - 1) * p) 100) (\<lambda>k.
        bind_err (int_of_float k) (\<lambda>f.
        let c = (if f + 1 < int (length sorted_arr) then f + 1 else f)
        in if c > f then
             bind_err (py_index sorted_arr f) (\<lambda>sf.
             bind_err (float_of_int f) (\<lambda>ff.
             bind_err (py_index sorted_arr c) (\<lambda>sc.
             bind_err (py_index sorted_arr f) (\<lambda>sf'.
             bind_err (float_of_int (sc - sf')) (\<lambda>d.
             bind_err (float_of_int sf) (\<lambda>sff.
               Inr (F (fadd sff (fmul (fsub k ff) d)))))))))
           else
             bind_err (py_index sorted_arr f) (\<lambda>sf. Inr (I sf)))))"

section \<open>stats\<close>

text \<open>
  \<^verbatim>\<open>
  def stats(data, name):
      if not data:
          return None
      ms_list = [x[0] for x in data]
      fails = sum(1 for x in data if x[1])
      n = len(ms_list)
      s = sorted(ms_list)
      return {'name': name, 'n': n, 'min': min(ms_list), 'max': max(ms_list),
              'mean': sum(ms_list) / n,
              'p50': percentile(s, 50), 'p90': percentile(s, 90),
              'p95': percentile(s, 95), 'p99': percentile(s, 99),
              'fails': fails, 'fail_rate': 100.0 * fails / n if n else 0}
  \<close>
  The dictionary is a record; its keys carry the prefix \<open>st_\<close>.
\<close>

record summary_stats =
  st_name :: string
  st_n :: int
  st_min :: int
  st_max :: int
  st_mean :: double
  st_p50 :: num
  st_p90 :: num
  st_p95 :: num
  st_p99 :: num
  st_fails :: int
  st_fail_rate :: num

definition stats :: "event list \<Rightarrow> string \<Rightarrow> error + summary_stats option" where
  "stats data name =
     (if data = [] then Inr None
      else
        let ms_list = map fst data;
            fails = int (length (filter snd data));
            n = int (length ms_list);
            s = sort ms_list
        in bind_err (py_min ms_list) (\<lambda>mn.
           bind_err (py_max ms_list) (\<lambda>mx.
           bind_err (int_truediv (sum_list ms_list) n) (\<lambda>mean.
           bind_err (percentile s 50) (\<lambda>p50.
           bind_err (percentile s 90) (\<lambda>p90.
           bind_err (percentile s 95) (\<lambda>p95.
           bind_err (percentile s 99) (\<lambda>p99.
           bind_err (if n \<noteq> 0 then bind_err (percent_rate fails n) (\<lambda>r. Inr (F r))
                     else Inr (I 0)) (\<lambda>fail_rate.
             Inr (Some \<lparr>st_name = name, st_n = n, st_min = mn, st_max = mx, st_mean = mean,
                        st_p50 = p50, st_p90 = p90, st_p95 = p95, st_p99 = p99,
                        st_fails = fails, st_fail_rate = fail_rate\<rparr>))))))))))"

section \<open>segment_avgs\<close>

text \<open>
  \<^verbatim>\<open>
  def segment_avgs(data, num_segments):
      if not data:
          return []
      n = len(data)
      ms_list = [x[0] for x in data]
      fail_list = [x[1] for x in data]
      seg_size = n / num_segments
      result = []
      for i in range(num_segments):
          start = int(i * seg_size)
          end = int((i + 1) * seg_size) if i < num_segments - 1 else n
          if start >= end:
              continue
          seg_ms = ms_list[start:end]
          seg_fail = fail_list[start:end]
          avg_ms = sum(seg_ms) / len(seg_ms)
          fail_count = sum(seg_fail)
          result.append((i + 1, start + 1, end, len(seg_ms), avg_ms, fail_count,
                         100.0 * fail_count / len(seg_ms)))
      return result
  \<close>
  The seven-tuple appended for a segment is a record, in the tuple's order.
\<close>

record segment =
  seg_index :: int
  seg_first :: int
  seg_last :: int
  seg_count :: int
  seg_avg :: double
  seg_fails :: int
  seg_fail_rate :: double

text \<open>\<^verbatim>\<open>int(i * seg_size)\<close>: the integer is converted, the product rounded, the result
  truncated.\<close>

definition scaled :: "int \<Rightarrow> double \<Rightarrow> error + int" where
  "scaled i seg_size = bind_err (float_of_int i) (\<lambda>fi. int_of_float (fmul fi seg_size))"

definition seg_start :: "double \<Rightarrow> int \<Rightarrow> error + int" where
  "seg_start seg_size i = scaled i seg_size"

definition seg_end :: "int \<Rightarrow> double \<Rightarrow> int \<Rightarrow> int \<Rightarrow> error + int" where
  "seg_end n seg_size num_segments i =
     (if i < num_segments - 1 then scaled (i + 1) seg_size else Inr n)"

text \<open>The loop over \<^verbatim>\<open>range(num_segments)\<close>, with \<open>result\<close> as the accumulator.\<close>

fun seg_loop ::
  "int list \<Rightarrow> bool list \<Rightarrow> int \<Rightarrow> double \<Rightarrow> int \<Rightarrow> int list \<Rightarrow> segment list
     \<Rightarrow> error + segment list" where
  "seg_loop ms_list fail_list n seg_size num_segments [] result = Inr result"
| "seg_loop ms_list fail_list n seg_size num_segments (i # rest) result =
     bind_err (seg_start seg_size i) (\<lambda>start.
     bind_err (seg_end n seg_size num_segments i) (\<lambda>end.
       if start \<ge> end then seg_loop ms_list fail_list n seg_size num_segments rest result
       else
         let seg_ms = py_slice ms_list start end;
             seg_fail = py_slice fail_list start end
         in bind_err (int_truediv (sum_list seg_ms) (int (length seg_ms))) (\<lambda>avg_ms.
            let fail_count = count_true seg_fail
            in bind_err (percent_rate fail_count (int (length seg_ms))) (\<lambda>rate.
               seg_loop ms_list fail_list n seg_size num_segments rest
                 (result @ [\<lparr>seg_index = i + 1, seg_first = start + 1, seg_last = end,
                             seg_count = int (length seg_ms), seg_avg = avg_ms,
                             seg_fails = fail_count, seg_fail_rate = rate\<rparr>])))))"

text \<open>\<^verbatim>\<open>range(k)\<close> is empty for \<open>k \<le> 0\<close>.\<close>

definition py_range :: "int \<Rightarrow> int list" where
  "py_range k = map int [0..<nat k]"

definition segment_avgs :: "event list \<Rightarrow> int \<Rightarrow> error + segment list" where
  "segment_avgs data num_segments =
     (if data = [] then Inr []
      else
        let n = int (length data);
            ms_list = map fst data;
            fail_list = map snd data
        in bind_err (int_truediv n num_segments) (\<lambda>seg_size.
             seg_loop ms_list fail_list n seg_size num_segments (py_range num_segments) []))"

section \<open>parse_log\<close>

text \<open>
  \<^verbatim>\<open>
  def parse_log(path: Path):
      data = []
      pat = re.compile(r'\[Fastbot\]:\s+// dumpBinary:\s+(\d+)\s+ms(\s+\(buffer full or fail\))?')
      text = path.read_text(errors='replace')
      for m in pat.finditer(text):
          ms = int(m.group(1))
          is_fail = m.group(2) is not None
          data.append((ms, is_fail))
      return data
  \<close>
  The decoded text is a list of Unicode code points. For a pattern given as a string,
  \<^verbatim>\<open>\s\<close> and \<^verbatim>\<open>\d\<close> are the whitespace and the decimal digits of the Unicode
  character database of the interpreter, and \<^verbatim>\<open>int\<close> reads the same digits. The table
  of the decimal digits grows with the versions of Unicode and is not in the repository:
  it is the parameter \<open>dd\<close>, which gives the value of a code point that is a decimal
  digit and \<open>None\<close> for any other.
\<close>

type_synonym codepoint = nat
type_synonym ustring = "codepoint list"
type_synonym decimals = "codepoint \<Rightarrow> nat option"

text \<open>The code points of an ASCII literal of the script.\<close>

definition ascii :: "string \<Rightarrow> ustring" where
  "ascii s = map of_char s"

subsection \<open>The regular expression engine\<close>

text \<open>The code points that \<^verbatim>\<open>\s\<close> matches.\<close>

definition is_space :: "codepoint \<Rightarrow> bool" where
  "is_space c =
     (c \<in> {0x9, 0xA, 0xB, 0xC, 0xD, 0x1C, 0x1D, 0x1E, 0x1F, 0x20, 0x85, 0xA0, 0x1680,
            0x2000, 0x2001, 0x2002, 0x2003, 0x2004, 0x2005, 0x2006, 0x2007, 0x2008, 0x2009,
            0x200A, 0x2028, 0x2029, 0x202F, 0x205F, 0x3000})"

definition is_digit :: "decimals \<Rightarrow> codepoint \<Rightarrow> bool" where
  "is_digit dd c = (dd c \<noteq> None)"

datatype char_class = Space | Digit

fun in_class :: "decimals \<Rightarrow> char_class \<Rightarrow> codepoint \<Rightarrow> bool" where
  "in_class dd Space c = is_space c"
| "in_class dd Digit c = is_digit dd c"

text \<open>
  The fragment of the pattern language that the script uses: literal text, a greedy
  \<^verbatim>\<open>+\<close> over a character class, concatenation, a numbered capturing group and a
  greedy \<^verbatim>\<open>?\<close>.
\<close>

datatype regex =
    Lit ustring
  | Plus char_class
  | Seq regex regex
  | Group nat regex
  | Opt regex

type_synonym captures = "nat \<rightharpoonup> ustring"

text \<open>
  The texts left after one or more code points of a class, the longest run first:
  the order in which a greedy \<^verbatim>\<open>+\<close> tries them.
\<close>

fun plus_rests :: "(codepoint \<Rightarrow> bool) \<Rightarrow> ustring \<Rightarrow> ustring list" where
  "plus_rests P [] = []"
| "plus_rests P (c # cs) = (if P c then plus_rests P cs @ [cs] else [])"

text \<open>
  Backtracking as a list of successes: every way of matching the expression at the start
  of the text, as the remaining text and the captures, in the order in which the engine
  tries them. The match that the engine reports is the first of the list.
\<close>

fun matches :: "decimals \<Rightarrow> regex \<Rightarrow> ustring \<Rightarrow> captures \<Rightarrow> (ustring \<times> captures) list" where
  "matches dd (Lit s) t caps =
     (if take (length s) t = s then [(drop (length s) t, caps)] else [])"
| "matches dd (Plus cls) t caps = map (\<lambda>rest. (rest, caps)) (plus_rests (in_class dd cls) t)"
| "matches dd (Seq a b) t caps =
     concat (map (\<lambda>(rest, caps'). matches dd b rest caps') (matches dd a t caps))"
| "matches dd (Group i r) t caps =
     map (\<lambda>(rest, caps'). (rest, caps'(i \<mapsto> take (length t - length rest) t)))
       (matches dd r t caps)"
| "matches dd (Opt r) t caps = matches dd r t caps @ [(t, caps)]"

text \<open>
  \<^verbatim>\<open>finditer\<close>: the leftmost match, then the search goes on where the match ended.
  Where nothing matches the search moves one code point on. A match that consumes
  nothing also moves the search one code point on; the pattern of the script never
  matches the empty text.
\<close>

function finditer :: "decimals \<Rightarrow> regex \<Rightarrow> ustring \<Rightarrow> captures list" where
  "finditer dd r t =
     (case matches dd r t Map.empty of
        [] \<Rightarrow> (if t = [] then [] else finditer dd r (tl t))
      | (rest, caps) # _ \<Rightarrow>
          caps # (if length rest < length t then finditer dd r rest
                  else if t = [] then [] else finditer dd r (tl t)))"
  by pat_completeness auto
termination
  by (relation "measure (\<lambda>(dd, r, t). length t)") auto

declare finditer.simps [simp del]

subsection \<open>The pattern and the loop over its matches\<close>

definition pat :: regex where
  "pat =
     Seq (Lit (ascii ''[Fastbot]:''))
    (Seq (Plus Space)
    (Seq (Lit (ascii ''// dumpBinary:''))
    (Seq (Plus Space)
    (Seq (Group 1 (Plus Digit))
    (Seq (Plus Space)
    (Seq (Lit (ascii ''ms''))
         (Opt (Group 2 (Seq (Plus Space) (Lit (ascii ''(buffer full or fail)'')))))))))))"

text \<open>The value of a string of decimal digits.\<close>

definition digit_value :: "decimals \<Rightarrow> codepoint \<Rightarrow> int" where
  "digit_value dd c = (case dd c of None \<Rightarrow> 0 | Some v \<Rightarrow> int v)"

definition decimal :: "decimals \<Rightarrow> ustring \<Rightarrow> int" where
  "decimal dd ds = foldl (\<lambda>acc c. 10 * acc + digit_value dd c) 0 ds"

text \<open>
  \<^verbatim>\<open>int(s)\<close> on a string raises ValueError unless it is a non-empty string of digits,
  and also when it has more digits than the interpreter's limit for the conversion of
  strings, 4300 unless the interpreter is configured otherwise. Signs, blanks and
  underscores, which \<^verbatim>\<open>int\<close> also accepts, cannot occur in a capture of \<^verbatim>\<open>\d+\<close> and
  are left out.
\<close>

definition max_str_digits :: nat where
  "max_str_digits = 4300"

definition py_int_of_str :: "decimals \<Rightarrow> ustring \<Rightarrow> error + int" where
  "py_int_of_str dd s =
     (if s = [] \<or> \<not> list_all (is_digit dd) s then Inl ValueError
      else if max_str_digits < length s then Inl ValueError
      else Inr (decimal dd s))"

text \<open>The body of the loop: \<^verbatim>\<open>m.group(i)\<close> is \<^verbatim>\<open>None\<close> for a group that took no part
  in the match, and \<^verbatim>\<open>int(None)\<close> raises TypeError.\<close>

definition event_of_match :: "decimals \<Rightarrow> captures \<Rightarrow> error + event" where
  "event_of_match dd m =
     (case m 1 of
        None \<Rightarrow> Inl TypeError
      | Some g1 \<Rightarrow> bind_err (py_int_of_str dd g1) (\<lambda>ms. Inr (ms, m 2 \<noteq> None)))"

fun collect_events :: "decimals \<Rightarrow> captures list \<Rightarrow> event list \<Rightarrow> error + event list" where
  "collect_events dd [] data = Inr data"
| "collect_events dd (m # rest) data =
     bind_err (event_of_match dd m) (\<lambda>e. collect_events dd rest (data @ [e]))"

text \<open>The files: a path has a text or does not exist.\<close>

type_synonym files = "string \<rightharpoonup> ustring"

definition read_text :: "files \<Rightarrow> string \<Rightarrow> error + ustring" where
  "read_text fs path = (case fs path of None \<Rightarrow> Inl FileNotFoundError | Some content \<Rightarrow> Inr content)"

definition parse_log :: "decimals \<Rightarrow> files \<Rightarrow> string \<Rightarrow> error + event list" where
  "parse_log dd fs path =
     bind_err (read_text fs path) (\<lambda>content. collect_events dd (finditer dd pat content) [])"

section \<open>main\<close>

text \<open>
  The driver (lines 70 to 130 of the script) checks that both logs exist, parses them,
  computes the statistics and prints the report; the script ends with
  \<^verbatim>\<open>sys.exit(main())\<close>. A run is modelled by what it leaves behind: the way the process
  ends, the lines written to standard output and to standard error, and the paths read.

  A printed line is modelled by its kind and the values it renders; the rendering of
  numbers (\<^verbatim>\<open>:.1f\<close> and the like) and the wording of the labels are not modelled.
  The two series names of the script are not ASCII; they are given here in English.
\<close>

datatype ending = Exit int | Uncaught error

datatype line =
    Rule char
  | Title
  | Blank
  | Heading nat
  | SeriesName string
  | Samples int
  | MinMax int int
  | Mean double
  | Percentiles num num num num
  | Failures int num
  | CmpSamples int int int
  | CmpMean double double double
  | CmpMax int int
  | CmpP99 num num
  | CmpFailRate num num
  | SegmentRow segment
  | TrendLine "(int \<times> double) list"

record run =
  ending :: ending
  stdout :: "line list"
  stderr :: "string list"
  reads :: "string list"

definition log1 :: string where "log1 = ''fastbot1.log''"
definition log2 :: string where "log2 = ''fastbot2.log''"
definition name1 :: string where "name1 = ''fastbot1 (before fix)''"
definition name2 :: string where "name2 = ''fastbot2 (after fix)''"

text \<open>
  A part of the report: the lines it prints and, when an exception ends it, the error.
  Two parts in sequence: the second runs only when the first raised nothing.
\<close>

type_synonym part = "line list \<times> error option"

definition then_part :: "part \<Rightarrow> part \<Rightarrow> part" where
  "then_part a b = (case snd a of Some e \<Rightarrow> a | None \<Rightarrow> (fst a @ fst b, snd b))"

definition printed :: "line list \<Rightarrow> part" where
  "printed ls = (ls, None)"

text \<open>Lines 92 to 101: the statistics of a series, nothing for an absent one.\<close>

definition stats_lines :: "summary_stats option \<Rightarrow> line list" where
  "stats_lines s =
     (case s of
        None \<Rightarrow> []
      | Some s \<Rightarrow>
          [SeriesName (st_name s), Samples (st_n s), MinMax (st_min s) (st_max s),
           Mean (st_mean s), Percentiles (st_p50 s) (st_p90 s) (st_p95 s) (st_p99 s),
           Failures (st_fails s) (st_fail_rate s), Blank])"

text \<open>
  Lines 105 to 110: the comparison, when both series have statistics. The second line
  divides the difference of the means by the mean of the first series and multiplies
  by the integer 100, which converts exactly; the first line is printed before that.
\<close>

definition compare_part :: "summary_stats option \<Rightarrow> summary_stats option \<Rightarrow> part" where
  "compare_part s1 s2 =
     (case (s1, s2) of
        (Some a, Some b) \<Rightarrow>
          (case float_truediv (fsub (st_mean b) (st_mean a)) (st_mean a) of
             Inl e \<Rightarrow> ([CmpSamples (st_n a) (st_n b) (st_n b - st_n a)], Some e)
           | Inr r \<Rightarrow>
               printed
                 [CmpSamples (st_n a) (st_n b) (st_n b - st_n a),
                  CmpMean (st_mean a) (st_mean b) (fmul r (Finite 100)),
                  CmpMax (st_max a) (st_max b),
                  CmpP99 (st_p99 a) (st_p99 b),
                  CmpFailRate (st_fail_rate a) (st_fail_rate b)])
      | _ \<Rightarrow> printed [])"

text \<open>Lines 114 to 118: the name of a series, a row for each of its four segments, a blank.\<close>

definition trend4_part :: "string \<Rightarrow> event list \<Rightarrow> part" where
  "trend4_part name data =
     (case segment_avgs data 4 of
        Inl e \<Rightarrow> ([SeriesName name], Some e)
      | Inr segs \<Rightarrow> printed ([SeriesName name] @ map SegmentRow segs @ [Blank]))"

text \<open>
  Lines 121 to 126: the name, then one line with the average of the \<open>i\<close>-th emitted
  segment for every \<open>i\<close> from 1 to 10 that is at most the number of emitted segments.
\<close>

definition trend10_part :: "string \<Rightarrow> event list \<Rightarrow> part" where
  "trend10_part name data =
     (case segment_avgs data 10 of
        Inl e \<Rightarrow> ([SeriesName name], Some e)
      | Inr segs \<Rightarrow>
          printed
            [SeriesName name,
             TrendLine (map (\<lambda>i. (i, seg_avg (segs ! nat (i - 1))))
                          (filter (\<lambda>i. i \<le> int (length segs)) (map int [1..<11]))),
             Blank])"

definition report :: "event list \<Rightarrow> event list \<Rightarrow> summary_stats option \<Rightarrow> summary_stats option
    \<Rightarrow> part" where
  "report d1 d2 s1 s2 =
     then_part (printed ([Rule CHR ''='', Title, Rule CHR ''='', Blank, Heading 1, Rule CHR ''-'']
                         @ stats_lines s1 @ stats_lines s2
                         @ [Blank, Heading 2, Rule CHR ''-'']))
    (then_part (compare_part s1 s2)
    (then_part (printed [Blank, Heading 3, Rule CHR ''-''])
    (then_part (trend4_part name1 d1)
    (then_part (trend4_part name2 d2)
    (then_part (printed [Heading 4, Rule CHR ''-''])
    (then_part (trend10_part name1 d1)
               (trend10_part name2 d2)))))))"

text \<open>
  An exception that nothing catches ends the process with status 1 and a traceback on
  standard error, whose text is not modelled; the lines printed so far stay.
\<close>

definition crashed :: "error \<Rightarrow> line list \<Rightarrow> string list \<Rightarrow> run" where
  "crashed e out rd = \<lparr>ending = Uncaught e, stdout = out, stderr = [''Traceback''], reads = rd\<rparr>"

definition main :: "decimals \<Rightarrow> files \<Rightarrow> run" where
  "main dd fs =
     (if fs log1 = None then
        \<lparr>ending = Exit 1, stdout = [], stderr = [''Missing fastbot1.log''], reads = []\<rparr>
      else if fs log2 = None then
        \<lparr>ending = Exit 2, stdout = [], stderr = [''Missing fastbot2.log''], reads = []\<rparr>
      else
        (case parse_log dd fs log1 of Inl e \<Rightarrow> crashed e [] [log1] | Inr d1 \<Rightarrow>
        (case parse_log dd fs log2 of Inl e \<Rightarrow> crashed e [] [log1, log2] | Inr d2 \<Rightarrow>
        (case stats d1 name1 of Inl e \<Rightarrow> crashed e [] [log1, log2] | Inr s1 \<Rightarrow>
        (case stats d2 name2 of Inl e \<Rightarrow> crashed e [] [log1, log2] | Inr s2 \<Rightarrow>
        (case report d1 d2 s1 s2 of
           (out, Some e) \<Rightarrow> crashed e out [log1, log2]
         | (out, None) \<Rightarrow>
             \<lparr>ending = Exit 0, stdout = out, stderr = [], reads = [log1, log2]\<rparr>))))))"

section \<open>Auxiliary notions for the statements about percentile and stats\<close>

text \<open>
  The linear interpolation of the specification in exact arithmetic: with
  \<open>k = (n - 1) * p / 100\<close>, \<open>f = floor k\<close> and \<open>c = min (f + 1) (n - 1)\<close>, the value is
  \<open>s[f] + (k - f) * (s[c] - s[f])\<close> when \<open>c > f\<close>, else \<open>s[f]\<close>.
\<close>

definition percentile_exact :: "int list \<Rightarrow> int \<Rightarrow> rat" where
  "percentile_exact s p =
     (let n = int (length s);
          k = of_int (n - 1) * of_int p / 100;
          f = \<lfloor>k\<rfloor>;
          c = min (f + 1) (n - 1)
      in if c > f then of_int (s ! nat f) + (k - of_int f) * (of_int (s ! nat c) - of_int (s ! nat f))
         else of_int (s ! nat f))"

text \<open>
  The same formula, in the words of the specification, with the arithmetic of the
  interpreter: the quotient, the difference, the product and the sum are rounded to a
  double, an integer operand is converted first, and what the interpreter raises on the
  way is raised.
\<close>

definition float_floor :: "double \<Rightarrow> error + int" where
  "float_floor k = (case k of Finite r \<Rightarrow> Inr \<lfloor>r\<rfloor> | NaN \<Rightarrow> Inl ValueError | _ \<Rightarrow> Inl OverflowError)"

definition percentile_spec :: "int list \<Rightarrow> int \<Rightarrow> error + num" where
  "percentile_spec s p =
     (let n = int (length s)
      in bind_err (int_truediv ((n - 1) * p) 100) (\<lambda>k.
         bind_err (float_floor k) (\<lambda>f.
         let c = min (f + 1) (n - 1)
         in if c > f then
              bind_err (py_index s f) (\<lambda>sf.
              bind_err (float_of_int f) (\<lambda>ff.
              bind_err (py_index s c) (\<lambda>sc.
              bind_err (float_of_int (sc - sf)) (\<lambda>d.
              bind_err (float_of_int sf) (\<lambda>x.
                Inr (F (fadd x (fmul (fsub k ff) d))))))))
            else bind_err (py_index s f) (\<lambda>sf. Inr (I sf)))))"

text \<open>
  The comparisons \<^verbatim>\<open><=\<close> and \<^verbatim>\<open>==\<close> of two numbers: the interpreter compares an
  integer and a float by their exact values; a NaN compares false with everything.
\<close>

fun double_le :: "double \<Rightarrow> double \<Rightarrow> bool" where
  "double_le (Finite a) (Finite b) = (a \<le> b)"
| "double_le NaN _ = False"
| "double_le _ NaN = False"
| "double_le NegInf _ = True"
| "double_le _ PosInf = True"
| "double_le _ _ = False"

fun value_of :: "num \<Rightarrow> double" where
  "value_of (I i) = Finite (of_int i)"
| "value_of (F d) = d"

definition num_le :: "num \<Rightarrow> num \<Rightarrow> bool" where
  "num_le a b = double_le (value_of a) (value_of b)"

definition num_eq :: "num \<Rightarrow> num \<Rightarrow> bool" where
  "num_eq a b = (value_of a \<noteq> NaN \<and> value_of a = value_of b)"

text \<open>
  The rank that percentile computes, and the value it interpolates at a rank for an
  array of elements that convert exactly.
\<close>

definition rank :: "int list \<Rightarrow> int \<Rightarrow> rat" where
  "rank s p = RN (of_int ((int (length s) - 1) * p) / 100)"

definition interp_value :: "int list \<Rightarrow> rat \<Rightarrow> rat" where
  "interp_value s k =
     (let f = \<lfloor>k\<rfloor>
      in if f + 1 < int (length s)
         then RN (of_int (s ! nat f) + RN (RN (k - of_int f) * of_int (s ! nat (f + 1) - s ! nat f)))
         else of_int (s ! nat f))"

definition interp :: "int list \<Rightarrow> rat \<Rightarrow> num" where
  "interp s k =
     (if \<lfloor>k\<rfloor> + 1 < int (length s) then F (Finite (interp_value s k)) else I (s ! nat \<lfloor>k\<rfloor>))"

section \<open>Auxiliary notions for the statements about segment_avgs\<close>

text \<open>
  The value of \<^verbatim>\<open>seg_size\<close> for a series of \<open>n\<close> events cut into \<open>N\<close> segments, the
  integers that convert to a float without OverflowError, and the boundary before the
  \<open>i\<close>-th requested segment as the loop computes it: \<^verbatim>\<open>int(i * seg_size)\<close> below \<open>N\<close>,
  and \<open>n\<close> at \<open>N\<close>.
\<close>

definition seg_size :: "int \<Rightarrow> int \<Rightarrow> rat" where
  "seg_size n N = RN (of_int n / of_int N)"

definition convertible :: "int \<Rightarrow> bool" where
  "convertible i = (\<bar>RN (of_int i)\<bar> < 2 powi 1024)"

definition bnd :: "int \<Rightarrow> int \<Rightarrow> int \<Rightarrow> int" where
  "bnd n N i = (if i < N then \<lfloor>RN (RN (of_int i) * seg_size n N)\<rfloor> else n)"

text \<open>
  The four integers of a segment record, and those of the record that the loop appends
  for the requested segment \<open>i\<close>.
\<close>

definition seg_shape :: "segment \<Rightarrow> int \<times> int \<times> int \<times> int" where
  "seg_shape g = (seg_index g, seg_first g, seg_last g, seg_count g)"

definition shape_of :: "int \<Rightarrow> int \<Rightarrow> int \<Rightarrow> int \<times> int \<times> int \<times> int" where
  "shape_of n N i = (i + 1, bnd n N i + 1, bnd n N (i + 1), bnd n N (i + 1) - bnd n N i)"

text \<open>The slice of the series that an emitted segment record describes.\<close>

definition seg_slice :: "event list \<Rightarrow> segment \<Rightarrow> event list" where
  "seg_slice data g = py_slice data (seg_first g - 1) (seg_last g)"

text \<open>
  The reading of the specification for the reported index: the indices of the emitted
  segments are \<open>1, 2, \<dots>\<close> in emission order.
\<close>

definition emission_order_indices :: "segment list \<Rightarrow> bool" where
  "emission_order_indices segs = (map seg_index segs = map int [1..<Suc (length segs)])"

section \<open>Rounding to a double\<close>

subsection \<open>The binary exponent\<close>

lemma expo_bounds:
  assumes "0 < x"
  shows "2 powi expo x \<le> x" and "x < 2 powi (expo x + 1)"
proof -
  have "2 powi expo x \<le> x \<and> x < 2 powi (expo x + 1)"
  proof (cases "1 \<le> x")
    case True
    define m where "m = \<lfloor>x\<rfloor>"
    have m: "0 < m" using True by (simp add: m_def)
    have b1: "1 \<le> bitlen m" using m bitlen_eq_zero_iff[of m] bitlen_nonneg[of m] by linarith
    have e: "expo x = bitlen m - 1" using True by (simp add: expo_def m_def)
    have lo: "(2::int) ^ nat (bitlen m - 1) \<le> m" and hi: "m < 2 ^ nat (bitlen m)"
      using bitlen_bounds[OF m] by auto
    have "(2::rat) powi (bitlen m - 1) = of_int (2 ^ nat (bitlen m - 1))"
      using b1 by (simp add: power_int_def)
    also have "\<dots> \<le> of_int m" using lo by (simp only: of_int_le_iff)
    also have "\<dots> \<le> x" by (simp add: m_def)
    finally have l: "2 powi expo x \<le> x" by (simp add: e)
    have "m + 1 \<le> 2 ^ nat (bitlen m)" using hi by simp
    then have "(of_int (m + 1) :: rat) \<le> of_int (2 ^ nat (bitlen m))"
      by (simp only: of_int_le_iff)
    moreover have "x < of_int (m + 1)" unfolding m_def by linarith
    moreover have "(2::rat) powi (bitlen m - 1 + 1) = of_int (2 ^ nat (bitlen m))"
      using b1 by (simp add: power_int_def)
    ultimately have "x < 2 powi (expo x + 1)" by (simp add: e)
    with l show ?thesis by simp
  next
    case False
    define m where "m = \<lceil>1 / x\<rceil>"
    define L where "L = bitlen (m - 1)"
    have y1: "1 < 1 / x" using False assms by simp
    then have m2: "2 \<le> m" unfolding m_def by linarith
    then have m1: "0 < m - 1" by simp
    have L1: "1 \<le> L"
      using m1 bitlen_eq_zero_iff[of "m - 1"] bitlen_nonneg[of "m - 1"] unfolding L_def by linarith
    have e: "expo x = - L" using False by (simp add: expo_def m_def L_def)
    have lo: "(2::int) ^ nat (L - 1) \<le> m - 1" and hi: "m - 1 < 2 ^ nat L"
      using bitlen_bounds[OF m1] by (auto simp: L_def)
    have "1 / x \<le> of_int m" by (simp add: m_def)
    also have "(of_int m :: rat) \<le> of_int (2 ^ nat L)"
      using hi by (simp only: of_int_le_iff)
    finally have "1 / x \<le> 2 ^ nat L" by simp
    then have "1 \<le> 2 ^ nat L * x" using assms by (simp add: field_simps)
    then have "1 / 2 ^ nat L \<le> x" by (simp add: field_simps)
    moreover have "(2::rat) powi (- L) = 1 / 2 ^ nat L"
      using L1 by (simp add: power_int_def inverse_eq_divide power_one_over)
    ultimately have l: "2 powi expo x \<le> x" by (simp add: e)
    have "of_int (m - 1) < 1 / x" unfolding m_def by linarith
    moreover have "(of_int (2 ^ nat (L - 1)) :: rat) \<le> of_int (m - 1)"
      using lo by (simp only: of_int_le_iff)
    ultimately have "2 ^ nat (L - 1) < 1 / x" by simp
    then have "2 ^ nat (L - 1) * x < 1" using assms by (simp add: field_simps)
    then have "x < 1 / 2 ^ nat (L - 1)" by (simp add: field_simps)
    moreover have "(2::rat) powi (- L + 1) = 1 / 2 ^ nat (L - 1)"
    proof (cases "L = 1")
      case True
      then show ?thesis by simp
    next
      case False
      then have "- L + 1 < 0" "nat (- (- L + 1)) = nat (L - 1)" using L1 by auto
      then show ?thesis by (simp add: power_int_def inverse_eq_divide power_one_over)
    qed
    ultimately have "x < 2 powi (expo x + 1)" by (simp add: e)
    with l show ?thesis by simp
  qed
  then show "2 powi expo x \<le> x" and "x < 2 powi (expo x + 1)" by simp_all
qed

lemma expo_unique:
  assumes "2 powi e \<le> x" "x < 2 powi (e + 1)"
  shows "expo x = e"
proof -
  have "0 < (2::rat) powi e" by simp
  then have x: "0 < x" using assms(1) by linarith
  note b = expo_bounds[OF x]
  have "\<not> expo x < e"
  proof
    assume "expo x < e"
    then have "expo x + 1 \<le> e" by simp
    then have "(2::rat) powi (expo x + 1) \<le> 2 powi e" by (intro power_int_increasing) auto
    then show False using b(2) assms(1) by simp
  qed
  moreover have "\<not> e < expo x"
  proof
    assume "e < expo x"
    then have "e + 1 \<le> expo x" by simp
    then have "(2::rat) powi (e + 1) \<le> 2 powi expo x" by (intro power_int_increasing) auto
    then show False using b(1) assms(2) by simp
  qed
  ultimately show ?thesis by simp
qed

lemma expo_mono:
  assumes "0 < x" "x \<le> y"
  shows "expo x \<le> expo y"
proof (rule ccontr)
  assume "\<not> expo x \<le> expo y"
  then have "expo y + 1 \<le> expo x" by simp
  then have "(2::rat) powi (expo y + 1) \<le> 2 powi expo x" by (intro power_int_increasing) auto
  moreover have "0 < y" using assms by simp
  ultimately show False using expo_bounds(1)[OF assms(1)] expo_bounds(2)[of y] assms(2) by simp
qed

subsection \<open>Rounding to an integer\<close>

lemma round_even_of_int [simp]: "round_even (of_int k) = k"
  by (simp add: round_even_def)

lemma round_even_floor: "\<lfloor>r\<rfloor> \<le> round_even r" "round_even r \<le> \<lfloor>r\<rfloor> + 1"
  by (simp_all add: round_even_def Let_def)

lemma round_even_half: "\<bar>of_int (round_even r) - r\<bar> \<le> 1 / 2"
proof -
  define d where "d = r - of_int \<lfloor>r\<rfloor>"
  have d: "0 \<le> d" "d < 1" unfolding d_def by linarith+
  have r: "r = of_int \<lfloor>r\<rfloor> + d" by (simp add: d_def)
  consider "d < 1 / 2" | "1 / 2 < d" | "d = 1 / 2" by linarith
  then show ?thesis
  proof cases
    case 1
    then have "round_even r = \<lfloor>r\<rfloor>" by (simp add: round_even_def Let_def d_def)
    then show ?thesis using d 1 r by simp
  next
    case 2
    then have "round_even r = \<lfloor>r\<rfloor> + 1" by (simp add: round_even_def Let_def d_def)
    then show ?thesis using d 2 r by simp
  next
    case 3
    then have "round_even r = \<lfloor>r\<rfloor> \<or> round_even r = \<lfloor>r\<rfloor> + 1"
      by (simp add: round_even_def Let_def d_def)
    then show ?thesis using 3 r by auto
  qed
qed

lemma round_even_mono:
  assumes "r \<le> s"
  shows "round_even r \<le> round_even s"
proof (cases "\<lfloor>r\<rfloor> = \<lfloor>s\<rfloor>")
  case True
  have "r - of_int \<lfloor>r\<rfloor> \<le> s - of_int \<lfloor>r\<rfloor>" using assms by simp
  then show ?thesis using True by (auto simp: round_even_def Let_def)
next
  case False
  have "\<lfloor>r\<rfloor> \<le> \<lfloor>s\<rfloor>" using assms by (rule floor_mono)
  then have "\<lfloor>r\<rfloor> + 1 \<le> \<lfloor>s\<rfloor>" using False by simp
  then show ?thesis using round_even_floor(2)[of r] round_even_floor(1)[of s] by linarith
qed

lemma round_even_minus: "round_even (- r) = - round_even r"
proof (cases "r = of_int \<lfloor>r\<rfloor>")
  case True
  then obtain k where k: "r = of_int k" ..
  have "round_even (of_int (- k)) = - round_even (of_int k)"
    by (simp only: round_even_of_int)
  then show ?thesis unfolding k by (simp only: of_int_minus)
next
  case False
  then have f: "\<lfloor>- r\<rfloor> = - \<lfloor>r\<rfloor> - 1"
    by (metis ceiling_altdef ceiling_def add_diff_cancel_right' minus_diff_eq minus_add_distrib
        diff_minus_eq_add add.commute uminus_add_conv_diff)
  have d: "0 < r - of_int \<lfloor>r\<rfloor>" "r - of_int \<lfloor>r\<rfloor> < 1" using False by linarith+
  show ?thesis
    using d unfolding round_even_def Let_def f by (auto simp: algebra_simps)
qed

subsection \<open>Rounding to a double\<close>

lemma quantum_pos [simp]: "0 < quantum x"
  by (simp add: quantum_def)

lemma quantum_nonneg [simp]: "0 \<le> quantum x"
  using quantum_pos[of x] by (rule less_imp_le)

lemma quantum_neq0 [simp]: "quantum x \<noteq> 0"
  using quantum_pos[of x] by (rule less_imp_neq[symmetric])

lemma round_even_0 [simp]: "round_even 0 = 0"
  using round_even_of_int[of 0] by simp

lemma p2_split: "(2::rat) powi (a + b) = 2 powi a * 2 powi b"
  by (simp add: power_int_add)

lemma p2_up53: "(2::rat) powi (e + 1) = 2 ^ 53 * 2 powi (e - 52)"
  using p2_split[of 53 "e - 52"] by (simp add: add.commute)

lemma p2_up52: "(2::rat) powi e = 2 ^ 52 * 2 powi (e - 52)"
  using p2_split[of 52 "e - 52"] by simp

lemma quantum_minus [simp]: "quantum (- x) = quantum x"
  by (simp add: quantum_def)

lemma RN_0 [simp]: "RN 0 = 0"
  by (simp add: RN_def)

lemma RN_minus: "RN (- x) = - RN x"
  by (simp add: RN_def round_even_minus)

lemma RN_fixI:
  assumes "x = of_int k * quantum x"
  shows "RN x = x"
proof -
  have "x / quantum x = of_int k"
    using assms quantum_pos[of x] by (metis less_irrefl nonzero_eq_divide_eq)
  then show ?thesis using assms by (simp add: RN_def)
qed

lemma quantum_eqI:
  assumes "2 powi e \<le> \<bar>x\<bar>" "\<bar>x\<bar> < 2 powi (e + 1)"
  shows "quantum x = 2 powi (max e (- 1022) - 52)"
  using expo_unique[OF assms] by (simp add: quantum_def)

lemma RN_error_quantum: "\<bar>RN x - x\<bar> \<le> quantum x / 2"
proof -
  have "RN x - x = (of_int (round_even (x / quantum x)) - x / quantum x) * quantum x"
    using quantum_pos[of x] by (simp add: RN_def field_simps)
  then have "\<bar>RN x - x\<bar> = \<bar>of_int (round_even (x / quantum x)) - x / quantum x\<bar> * quantum x"
    using quantum_pos[of x] by (simp add: abs_mult)
  also have "\<dots> \<le> (1 / 2) * quantum x"
    using round_even_half[of "x / quantum x"] quantum_pos[of x]
    by (intro mult_right_mono) auto
  finally show ?thesis by simp
qed

text \<open>For a positive number: the spacing against the number itself.\<close>

lemma quantum_upper:
  assumes "0 < x"
  shows "x < 2 ^ 53 * quantum x"
proof -
  have "x < 2 powi (expo x + 1)" using expo_bounds(2)[OF assms] .
  also have "(2::rat) powi (expo x + 1) \<le> 2 powi (max (expo x) (- 1022) + 1)"
    by (intro power_int_increasing) auto
  also have "\<dots> = 2 ^ 53 * 2 powi (max (expo x) (- 1022) - 52)"
    by (rule p2_up53)
  finally show ?thesis using assms by (simp add: quantum_def)
qed

lemma quantum_lower:
  assumes "2 powi (- 1022) \<le> x"
  shows "2 ^ 52 * quantum x \<le> x"
proof -
  have "0 < (2::rat) powi (- 1022)" by simp
  then have x: "0 < x" using assms by linarith
  have "- 1022 \<le> expo x"
  proof (rule ccontr)
    assume "\<not> - 1022 \<le> expo x"
    then have "expo x + 1 \<le> - 1022" by simp
    then have "(2::rat) powi (expo x + 1) \<le> 2 powi (- 1022)" by (intro power_int_increasing) auto
    then show False using expo_bounds(2)[OF x] assms by simp
  qed
  then have "max (expo x) (- 1022) = expo x" by simp
  then have "2 ^ 52 * quantum x = 2 ^ 52 * 2 powi (expo x - 52)"
    using x by (simp add: quantum_def)
  also have "\<dots> = 2 powi expo x" by (rule p2_up52[symmetric])
  finally show ?thesis using expo_bounds(1)[OF x] by simp
qed

lemma RN_error_rel:
  assumes "2 powi (- 1022) \<le> x"
  shows "\<bar>RN x - x\<bar> \<le> x / 2 ^ 53"
proof -
  have "quantum x / 2 \<le> x / 2 ^ 53" using quantum_lower[OF assms] by simp
  then show ?thesis using RN_error_quantum[of x] by linarith
qed

lemma RN_upper_binade:
  assumes "0 < x"
  shows "RN x \<le> 2 ^ 53 * quantum x"
proof -
  have "x / quantum x \<le> of_int (2 ^ 53)"
    using quantum_upper[OF assms] quantum_pos[of x] by (simp add: field_simps)
  then have "round_even (x / quantum x) \<le> round_even (of_int (2 ^ 53))"
    by (rule round_even_mono)
  then have "round_even (x / quantum x) \<le> 2 ^ 53" by (simp only: round_even_of_int)
  then have "(of_int (round_even (x / quantum x)) :: rat) \<le> of_int (2 ^ 53)"
    by (simp only: of_int_le_iff)
  then show ?thesis
    unfolding RN_def using quantum_pos[of x] by (intro mult_right_mono) auto
qed

lemma RN_lower_binade:
  assumes "2 powi (- 1022) \<le> x"
  shows "2 ^ 52 * quantum x \<le> RN x"
proof -
  have "of_int (2 ^ 52) \<le> x / quantum x"
    using quantum_lower[OF assms] quantum_pos[of x] by (simp add: field_simps)
  then have "round_even (of_int (2 ^ 52)) \<le> round_even (x / quantum x)"
    by (rule round_even_mono)
  then have "2 ^ 52 \<le> round_even (x / quantum x)" by (simp only: round_even_of_int)
  then have "(of_int (2 ^ 52) :: rat) \<le> of_int (round_even (x / quantum x))"
    by (simp only: of_int_le_iff)
  then show ?thesis
    unfolding RN_def using quantum_pos[of x] by (intro mult_right_mono) auto
qed

lemma RN_nonneg:
  assumes "0 \<le> x"
  shows "0 \<le> RN x"
proof -
  have "0 \<le> x / quantum x" using assms quantum_pos[of x] by simp
  then have "round_even (of_int 0) \<le> round_even (x / quantum x)"
    by (intro round_even_mono) simp
  then have "0 \<le> round_even (x / quantum x)" by (simp only: round_even_of_int)
  then show ?thesis unfolding RN_def using quantum_pos[of x] by simp
qed

lemma RN_mono_pos:
  assumes "0 < x" "x \<le> y"
  shows "RN x \<le> RN y"
proof -
  define ex where "ex = max (expo x) (- 1022)"
  define ey where "ey = max (expo y) (- 1022)"
  have y: "0 < y" using assms by simp
  have qx: "quantum x = 2 powi (ex - 52)" using assms(1) by (simp add: quantum_def ex_def)
  have qy: "quantum y = 2 powi (ey - 52)" using y by (simp add: quantum_def ey_def)
  have le: "ex \<le> ey" using expo_mono[OF assms] by (simp add: ex_def ey_def)
  show ?thesis
  proof (cases "ex = ey")
    case True
    then have q: "quantum x = quantum y" by (simp add: qx qy)
    have "x / quantum y \<le> y / quantum y"
      using assms(2) quantum_pos[of y] by (simp add: divide_right_mono)
    then have "round_even (x / quantum y) \<le> round_even (y / quantum y)"
      by (rule round_even_mono)
    then have "(of_int (round_even (x / quantum y)) :: rat) \<le> of_int (round_even (y / quantum y))"
      by (simp only: of_int_le_iff)
    then show ?thesis
      unfolding RN_def q using quantum_pos[of y] by (intro mult_right_mono) auto
  next
    case False
    then have lt: "ex + 1 \<le> ey" using le by simp
    then have "- 1022 < expo y" "ey = expo y" by (auto simp: ex_def ey_def)
    then have "(2::rat) powi (- 1022) \<le> 2 powi expo y" by (intro power_int_increasing) auto
    then have yn: "2 powi (- 1022) \<le> y" using expo_bounds(1)[OF y] by simp
    have "RN x \<le> 2 ^ 53 * quantum x" using assms(1) by (rule RN_upper_binade)
    also have "\<dots> = 2 ^ 53 * 2 powi (ex - 52)" by (simp only: qx)
    also have "\<dots> = 2 powi (ex + 1)" by (rule p2_up53[symmetric])
    also have "\<dots> \<le> 2 powi ey" using lt by (intro power_int_increasing) auto
    also have "\<dots> = 2 ^ 52 * 2 powi (ey - 52)" by (rule p2_up52)
    also have "\<dots> = 2 ^ 52 * quantum y" by (simp only: qy)
    also have "\<dots> \<le> RN y" using yn by (rule RN_lower_binade)
    finally show ?thesis .
  qed
qed

lemma RN_mono:
  assumes "x \<le> y"
  shows "RN x \<le> RN y"
proof -
  consider "0 < x" | "x \<le> 0" "0 \<le> y" | "y < 0" using assms by linarith
  then show ?thesis
  proof cases
    case 1
    then show ?thesis using assms by (rule RN_mono_pos)
  next
    case 2
    have "0 \<le> RN (- x)" using 2(1) by (intro RN_nonneg) simp
    then have "RN x \<le> 0" by (simp add: RN_minus)
    also have "0 \<le> RN y" using 2(2) by (rule RN_nonneg)
    finally show ?thesis .
  next
    case 3
    have "RN (- y) \<le> RN (- x)" using 3 assms by (intro RN_mono_pos) auto
    then show ?thesis by (simp add: RN_minus)
  qed
qed

subsection \<open>Representable numbers are fixed points\<close>

lemma RN_dyadic_pos:
  assumes "0 < k" "k \<le> 2 ^ 53" "- 1074 \<le> j"
  shows "RN (of_int k * 2 powi j) = of_int k * 2 powi j"
proof -
  define x :: rat where "x = of_int k * 2 powi j"
  define e' where "e' = max (expo x) (- 1022)"
  have x: "0 < x" using assms(1) by (simp add: x_def)
  have q: "quantum x = 2 powi (e' - 52)" using x by (simp add: quantum_def e'_def)
  have kle: "(of_int k :: rat) \<le> 2 ^ 53"
    using assms(2) by (metis of_int_le_iff of_int_numeral of_int_power)
  have xle: "x \<le> 2 powi (53 + j)"
  proof -
    have "x \<le> 2 ^ 53 * 2 powi j" unfolding x_def using kle by (intro mult_right_mono) auto
    also have "\<dots> = 2 powi (53 + j)" using p2_split[of 53 j] by simp
    finally show ?thesis .
  qed
  have ele: "expo x \<le> 53 + j"
  proof (rule ccontr)
    assume "\<not> expo x \<le> 53 + j"
    then have "53 + j + 1 \<le> expo x" by simp
    then have "(2::rat) powi (53 + j + 1) \<le> 2 powi expo x" by (intro power_int_increasing) auto
    moreover have "(2::rat) powi (53 + j) < 2 powi (53 + j + 1)"
      by (intro power_int_strict_increasing) auto
    ultimately show False using expo_bounds(1)[OF x] xle by linarith
  qed
  show ?thesis
  proof (cases "e' - 52 \<le> j")
    case True
    define t where "t = nat (j - (e' - 52))"
    have "(2::rat) powi j = 2 powi (int t) * 2 powi (e' - 52)"
      using True p2_split[of "int t" "e' - 52"] by (simp add: t_def)
    then have pj: "(2::rat) powi j = 2 ^ t * quantum x" by (simp add: q)
    have "x = of_int k * (2 ^ t * quantum x)" unfolding pj[symmetric] by (fact x_def)
    then have "x = of_int (k * 2 ^ t) * quantum x" by (simp add: mult.assoc)
    then have "RN x = x" by (rule RN_fixI)
    then show ?thesis by (simp add: x_def)
  next
    case False
    then have e: "e' = 53 + j" "expo x = 53 + j" using ele assms(3) by (auto simp: e'_def)
    have "2 powi (53 + j) \<le> x" using expo_bounds(1)[OF x] by (simp add: e(2))
    then have xeq: "x = 2 powi (53 + j)" using xle by simp
    have "(2::rat) powi (53 + j) = 2 ^ 52 * 2 powi (53 + j - 52)" by (rule p2_up52)
    then have "(2::rat) powi (53 + j) = 2 ^ 52 * quantum x" by (simp add: q e(1))
    then have "x = 2 ^ 52 * quantum x" using xeq by simp
    then have "x = of_int (2 ^ 52) * quantum x" by simp
    then have "RN x = x" by (rule RN_fixI)
    then show ?thesis by (simp add: x_def)
  qed
qed

lemma RN_dyadic:
  assumes "\<bar>k\<bar> \<le> 2 ^ 53" "- 1074 \<le> j"
  shows "RN (of_int k * 2 powi j) = of_int k * 2 powi j"
proof -
  consider "0 < k" | "k = 0" | "k < 0" by linarith
  then show ?thesis
  proof cases
    case 1
    then show ?thesis using assms by (intro RN_dyadic_pos) auto
  next
    case 2
    then show ?thesis by simp
  next
    case 3
    then have "RN (of_int (- k) * 2 powi j) = of_int (- k) * 2 powi j"
      using assms by (intro RN_dyadic_pos) auto
    then have "RN (- (of_int k * 2 powi j)) = - (of_int k * 2 powi j)" by simp
    then show ?thesis by (simp only: RN_minus neg_equal_iff_equal)
  qed
qed

lemma RN_of_int:
  assumes "\<bar>i\<bar> \<le> 2 ^ 53"
  shows "RN (of_int i) = of_int i"
  using RN_dyadic[OF assms, of 0] by simp

lemma RN_pow2:
  assumes "- 1074 \<le> j"
  shows "RN (2 powi j) = 2 powi j"
  using RN_dyadic[of 1 j] assms by simp

lemma RN_bounded:
  assumes "\<bar>x\<bar> \<le> 2 powi j" "- 1074 \<le> j"
  shows "\<bar>RN x\<bar> \<le> 2 powi j"
proof -
  have "RN x \<le> RN (2 powi j)" using assms(1) by (intro RN_mono) simp
  moreover have "RN (- (2 powi j)) \<le> RN x" using assms(1) by (intro RN_mono) simp
  ultimately show ?thesis using RN_pow2[OF assms(2)] by (simp add: RN_minus abs_le_iff)
qed

lemma RN_le_of_int:
  assumes "x \<le> of_int i" "\<bar>i\<bar> \<le> 2 ^ 53"
  shows "RN x \<le> of_int i"
  using RN_mono[OF assms(1)] RN_of_int[OF assms(2)] by simp

lemma RN_ge_of_int:
  assumes "of_int i \<le> x" "\<bar>i\<bar> \<le> 2 ^ 53"
  shows "of_int i \<le> RN x"
  using RN_mono[OF assms(1)] RN_of_int[OF assms(2)] by simp

subsection \<open>Results that stay finite\<close>

lemma round_double_Finite:
  assumes "\<bar>x\<bar> \<le> 2 powi 1023"
  shows "round_double x = Finite (RN x)"
proof -
  have "\<bar>RN x\<bar> \<le> 2 powi 1023" using assms by (intro RN_bounded) auto
  moreover have "(2::rat) powi 1023 < 2 powi 1024" by (intro power_int_strict_increasing) auto
  ultimately have "RN x < 2 powi 1024" "- (2 powi 1024) < RN x" by linarith+
  then show ?thesis by (simp add: round_double_def Let_def)
qed

lemma float_of_int_finite:
  assumes "\<bar>of_int i :: rat\<bar> \<le> 2 powi 1023"
  shows "float_of_int i = Inr (Finite (RN (of_int i)))"
  using round_double_Finite[OF assms] by (simp add: float_of_int_def finite_or_overflow_def)

lemma p53_le_p1023: "(2::rat) ^ 53 \<le> 2 powi 1023"
proof -
  have "(2::rat) powi 53 \<le> 2 powi 1023" by (intro power_int_increasing) auto
  then show ?thesis by simp
qed

lemma float_of_int_exact:
  assumes "\<bar>i\<bar> \<le> 2 ^ 53"
  shows "float_of_int i = Inr (Finite (of_int i))"
proof -
  have "\<bar>of_int i :: rat\<bar> \<le> 2 ^ 53"
    using assms by (metis of_int_abs of_int_le_iff of_int_numeral of_int_power)
  then have "\<bar>of_int i :: rat\<bar> \<le> 2 powi 1023" using p53_le_p1023 by linarith
  then show ?thesis using RN_of_int[OF assms] by (simp add: float_of_int_finite)
qed

lemma int_truediv_finite:
  assumes "b \<noteq> 0" "\<bar>of_int a / of_int b :: rat\<bar> \<le> 2 powi 1023"
  shows "int_truediv a b = Inr (Finite (RN (of_int a / of_int b)))"
  using round_double_Finite[OF assms(2)] assms(1)
  by (simp add: int_truediv_def finite_or_overflow_def)

section \<open>Properties of percentile and stats\<close>

lemma bind_err_Inr [simp]: "bind_err (Inr x) f = f x"
  by (simp add: bind_err_def)

lemma bind_err_Inl [simp]: "bind_err (Inl e) f = Inl e"
  by (simp add: bind_err_def)

lemma round_double_0 [simp]: "round_double 0 = Finite 0"
  by (simp add: round_double_def Let_def)

lemma round_double_of_int:
  assumes "\<bar>i\<bar> \<le> 2 ^ 53"
  shows "round_double (of_int i) = Finite (of_int i)"
proof -
  have "\<bar>of_int i :: rat\<bar> \<le> 2 ^ 53" using assms by (metis of_int_abs of_int_le_iff of_int_numeral of_int_power)
  then have "\<bar>of_int i :: rat\<bar> \<le> 2 powi 1023" using p53_le_p1023 by linarith
  then show ?thesis by (simp add: round_double_Finite RN_of_int[OF assms])
qed

lemma round_double_dyadic:
  assumes "\<bar>k\<bar> \<le> 2 ^ 53" "m \<le> 1074"
  shows "round_double (of_int k / 2 ^ m) = Finite (of_int k / 2 ^ m)"
proof -
  have e: "(of_int k / 2 ^ m :: rat) = of_int k * 2 powi (- int m)"
    by (simp add: power_int_minus field_simps)
  have r: "RN (of_int k / 2 ^ m) = of_int k / 2 ^ m"
    unfolding e using assms by (intro RN_dyadic) auto
  have "\<bar>of_int k :: rat\<bar> \<le> 2 ^ 53" using assms(1) by (metis of_int_abs of_int_le_iff of_int_numeral of_int_power)
  moreover have "\<bar>of_int k / 2 ^ m :: rat\<bar> \<le> \<bar>of_int k\<bar>"
    by (simp add: abs_divide divide_le_eq_1 mult_le_cancel_left1 field_simps)
  ultimately have "\<bar>of_int k / 2 ^ m :: rat\<bar> \<le> 2 powi 1023" using p53_le_p1023 by linarith
  then show ?thesis by (simp add: round_double_Finite r)
qed

lemma int_truediv_Finite:
  "int_truediv a b = Inr k \<Longrightarrow> \<exists>r. k = Finite r \<and> r = RN (of_int a / of_int b) \<and> b \<noteq> 0"
  by (auto simp: int_truediv_def finite_or_overflow_def round_double_def Let_def
      split: if_splits double.splits)

lemma percentile_refines:
  assumes "s \<noteq> []" "0 \<le> p"
  shows "percentile s p = percentile_spec s p"
proof (cases "int_truediv ((int (length s) - 1) * p) 100")
  case (Inl e)
  then show ?thesis using assms(1) by (simp add: percentile_def percentile_spec_def)
next
  case (Inr k)
  then obtain r where k: "k = Finite r" and r: "r = RN (of_int ((int (length s) - 1) * p) / of_int 100)"
    using int_truediv_Finite by blast
  have n: "0 \<le> int (length s) - 1" using assms(1) by (cases s) auto
  have "0 \<le> (int (length s) - 1) * p" using n assms(2) by simp
  then have "(0::rat) \<le> of_int ((int (length s) - 1) * p)" by (simp only: of_int_0_le_iff)
  then have "(0::rat) \<le> of_int ((int (length s) - 1) * p) / of_int 100" by (intro divide_nonneg_nonneg) auto
  then have r0: "0 \<le> r" unfolding r by (rule RN_nonneg)
  have fl: "int_of_float k = Inr \<lfloor>r\<rfloor>" "float_floor k = Inr \<lfloor>r\<rfloor>"
    using r0 by (simp_all add: k float_floor_def)
  show ?thesis
  proof (cases "\<lfloor>r\<rfloor> + 1 < int (length s)")
    case True
    then have m: "min (\<lfloor>r\<rfloor> + 1) (int (length s) - 1) = \<lfloor>r\<rfloor> + 1" by simp
    show ?thesis
      using assms(1) True
      by (simp add: percentile_def percentile_spec_def Inr fl Let_def m bind_err_def
          split: sum.splits)
  next
    case False
    then have m: "\<not> min (\<lfloor>r\<rfloor> + 1) (int (length s) - 1) > \<lfloor>r\<rfloor>" by simp
    show ?thesis
      using assms(1) False m
      by (simp add: percentile_def percentile_spec_def Inr fl Let_def)
  qed
qed

lemma py_index_in_range:
  "0 \<le> i \<Longrightarrow> i < int (length xs) \<Longrightarrow> py_index xs i = Inr (xs ! nat i)"
  by (simp add: py_index_def)

lemma abs_le_p53_rat:
  assumes "\<bar>i\<bar> \<le> (2::int) ^ 53"
  shows "\<bar>of_int i :: rat\<bar> \<le> 2 ^ 53"
proof -
  have "(of_int \<bar>i\<bar> :: rat) \<le> of_int (2 ^ 53)" using assms by (simp only: of_int_le_iff)
  then show ?thesis by simp
qed

lemma round_double_small:
  assumes "\<bar>x\<bar> \<le> 2 ^ 54"
  shows "round_double x = Finite (RN x)"
proof -
  have "(2::rat) powi 54 \<le> 2 powi 1023" by (intro power_int_increasing) auto
  then have "(2::rat) ^ 54 \<le> 2 powi 1023" by simp
  then show ?thesis using assms by (intro round_double_Finite) linarith
qed

lemma rank_arg_nonneg:
  assumes "s \<noteq> []" "0 \<le> p"
  shows "(0::rat) \<le> of_int ((int (length s) - 1) * p) / 100"
proof -
  have "0 \<le> int (length s) - 1" using assms(1) by (cases s) auto
  then have "0 \<le> (int (length s) - 1) * p" using assms(2) by simp
  then have "(0::rat) \<le> of_int ((int (length s) - 1) * p)" by (simp only: of_int_0_le_iff)
  then show ?thesis by (intro divide_nonneg_nonneg) auto
qed

lemma rank_arg_le:
  assumes "s \<noteq> []" "p \<le> 100"
  shows "(of_int ((int (length s) - 1) * p) / 100 :: rat) \<le> of_int (int (length s) - 1)"
proof -
  have n: "0 \<le> int (length s) - 1" using assms(1) by (cases s) auto
  have "(int (length s) - 1) * p \<le> (int (length s) - 1) * 100"
    using n assms(2) by (intro mult_left_mono) auto
  then have "(of_int ((int (length s) - 1) * p) :: rat) \<le> of_int ((int (length s) - 1) * 100)"
    by (simp only: of_int_le_iff)
  then have "(of_int ((int (length s) - 1) * p) / 100 :: rat) \<le> of_int ((int (length s) - 1) * 100) / 100"
    by (intro divide_right_mono) auto
  then show ?thesis by simp
qed

lemma rank_bounds:
  assumes "s \<noteq> []" "int (length s) \<le> 2 ^ 53" "0 \<le> p" "p \<le> 100"
  shows "0 \<le> rank s p" "rank s p \<le> of_int (int (length s) - 1)"
proof -
  show "0 \<le> rank s p" unfolding rank_def using rank_arg_nonneg[OF assms(1,3)] by (rule RN_nonneg)
  have "\<bar>int (length s) - 1\<bar> \<le> 2 ^ 53" using assms(1,2) by (cases s) auto
  then show "rank s p \<le> of_int (int (length s) - 1)"
    unfolding rank_def using rank_arg_le[OF assms(1,4)] by (intro RN_le_of_int)
qed

lemma rank_mono:
  assumes "s \<noteq> []" "p \<le> q"
  shows "rank s p \<le> rank s q"
proof -
  have n: "0 \<le> int (length s) - 1" using assms(1) by (cases s) auto
  have "(int (length s) - 1) * p \<le> (int (length s) - 1) * q"
    using n assms(2) by (intro mult_left_mono) auto
  then have "(of_int ((int (length s) - 1) * p) :: rat) \<le> of_int ((int (length s) - 1) * q)"
    by (simp only: of_int_le_iff)
  then have "(of_int ((int (length s) - 1) * p) / 100 :: rat) \<le> of_int ((int (length s) - 1) * q) / 100"
    by (intro divide_right_mono) auto
  then show ?thesis unfolding rank_def by (rule RN_mono)
qed

lemma rank_truediv:
  assumes "s \<noteq> []" "int (length s) \<le> 2 ^ 53" "0 \<le> p" "p \<le> 100"
  shows "int_truediv ((int (length s) - 1) * p) 100 = Inr (Finite (rank s p))"
proof -
  let ?x = "of_int ((int (length s) - 1) * p) / 100 :: rat"
  have n: "\<bar>int (length s) - 1\<bar> \<le> 2 ^ 53" using assms(1,2) by (cases s) auto
  have "?x \<le> of_int (int (length s) - 1)" by (rule rank_arg_le[OF assms(1,4)])
  also have "\<dots> \<le> 2 ^ 53" using abs_le_p53_rat[OF n] by linarith
  finally have "\<bar>?x\<bar> \<le> 2 ^ 53" using rank_arg_nonneg[OF assms(1,3)] by simp
  then have "\<bar>?x\<bar> \<le> 2 powi 1023" using p53_le_p1023 by linarith
  then have "\<bar>of_int ((int (length s) - 1) * p) / of_int 100 :: rat\<bar> \<le> 2 powi 1023" by simp
  from int_truediv_finite[OF _ this] show ?thesis by (simp add: rank_def)
qed

text \<open>The elements between which percentile interpolates.\<close>

lemma frac_round:
  fixes k :: rat
  assumes "0 \<le> k"
  shows "0 \<le> RN (k - of_int \<lfloor>k\<rfloor>)" "RN (k - of_int \<lfloor>k\<rfloor>) \<le> 1"
proof -
  have a: "0 \<le> k - of_int \<lfloor>k\<rfloor>" "k - of_int \<lfloor>k\<rfloor> \<le> of_int 1" by linarith+
  show "0 \<le> RN (k - of_int \<lfloor>k\<rfloor>)" using a(1) by (rule RN_nonneg)
  have "RN (k - of_int \<lfloor>k\<rfloor>) \<le> of_int 1" using a(2) by (rule RN_le_of_int) simp
  then show "RN (k - of_int \<lfloor>k\<rfloor>) \<le> 1" by simp
qed

lemma scaled_diff_bounds:
  assumes "0 \<le> t" "t \<le> 1" "0 \<le> d" "d \<le> 2 ^ 53"
  shows "0 \<le> RN (t * of_int d)" "RN (t * of_int d) \<le> of_int d"
proof -
  have d: "(0::rat) \<le> of_int d" using assms(3) by simp
  have "0 \<le> t * of_int d" using assms(1) d by (rule mult_nonneg_nonneg)
  then show "0 \<le> RN (t * of_int d)" by (rule RN_nonneg)
  have "t * of_int d \<le> 1 * of_int d" using assms(2) d by (rule mult_right_mono)
  then have "t * of_int d \<le> of_int d" by simp
  then show "RN (t * of_int d) \<le> of_int d" using assms(3,4) by (intro RN_le_of_int) auto
qed

lemma interp_value_bounds:
  assumes "sorted s" "\<forall>x\<in>set s. 0 \<le> x \<and> x \<le> 2 ^ 53" "0 \<le> k" "\<lfloor>k\<rfloor> \<le> int (length s) - 1"
  shows "of_int (s ! nat \<lfloor>k\<rfloor>) \<le> interp_value s k"
    and "interp_value s k \<le> of_int (s ! nat (min (\<lfloor>k\<rfloor> + 1) (int (length s) - 1)))"
proof -
  define f where "f = \<lfloor>k\<rfloor>"
  have f0: "0 \<le> f" using assms(3) by (simp add: f_def)
  have fn: "nat f < length s" using assms(4) f0 unfolding f_def by linarith
  have both: "of_int (s ! nat f) \<le> interp_value s k
      \<and> interp_value s k \<le> of_int (s ! nat (min (f + 1) (int (length s) - 1)))"
  proof (cases "f + 1 < int (length s)")
    case True
    then have cn: "nat (f + 1) < length s" using f0 by linarith
    define a where "a = s ! nat f"
    define b where "b = s ! nat (f + 1)"
    have ab: "a \<le> b" unfolding a_def b_def using assms(1) cn f0 by (intro sorted_nth_mono) auto
    have a: "0 \<le> a" "a \<le> 2 ^ 53" using assms(2) fn by (auto simp: a_def)
    have b: "0 \<le> b" "b \<le> 2 ^ 53" using assms(2) cn by (auto simp: b_def)
    define t where "t = RN (k - of_int f)"
    have t: "0 \<le> t" "t \<le> 1" unfolding t_def f_def using frac_round[OF assms(3)] by auto
    have d: "0 \<le> b - a" "b - a \<le> 2 ^ 53" using ab a b by auto
    note m = scaled_diff_bounds[OF t d]
    have lo: "of_int a \<le> of_int a + RN (t * of_int (b - a))" using m(1) by simp
    have hi: "of_int a + RN (t * of_int (b - a)) \<le> of_int b" using m(2) by simp
    have "of_int a \<le> RN (of_int a + RN (t * of_int (b - a)))"
      using lo a by (intro RN_ge_of_int) auto
    moreover have "RN (of_int a + RN (t * of_int (b - a))) \<le> of_int b"
      using hi b by (intro RN_le_of_int) auto
    moreover have "interp_value s k = RN (of_int a + RN (t * of_int (b - a)))"
      using True by (simp add: interp_value_def Let_def f_def[symmetric] a_def b_def t_def)
    moreover have "min (f + 1) (int (length s) - 1) = f + 1" using True by simp
    ultimately show ?thesis by (simp add: a_def b_def)
  next
    case False
    then have "min (f + 1) (int (length s) - 1) = f" using assms(4) by (simp add: f_def)
    then show ?thesis using False by (simp add: interp_value_def Let_def f_def[symmetric])
  qed
  show "of_int (s ! nat \<lfloor>k\<rfloor>) \<le> interp_value s k" using both by (simp add: f_def)
  show "interp_value s k \<le> of_int (s ! nat (min (\<lfloor>k\<rfloor> + 1) (int (length s) - 1)))"
    using both by (simp add: f_def)
qed

lemma interp_value_mono:
  assumes "sorted s" "\<forall>x\<in>set s. 0 \<le> x \<and> x \<le> 2 ^ 53"
    "0 \<le> k1" "k1 \<le> k2" "\<lfloor>k2\<rfloor> \<le> int (length s) - 1"
  shows "interp_value s k1 \<le> interp_value s k2"
proof -
  define f1 where "f1 = \<lfloor>k1\<rfloor>"
  define f2 where "f2 = \<lfloor>k2\<rfloor>"
  have f12: "f1 \<le> f2" unfolding f1_def f2_def using assms(4) by (rule floor_mono)
  have f10: "0 \<le> f1" using assms(3) by (simp add: f1_def)
  have k20: "0 \<le> k2" using assms(3,4) by simp
  show ?thesis
  proof (cases "f1 = f2")
    case True
    show ?thesis
    proof (cases "f1 + 1 < int (length s)")
      case lt: True
      then have cn: "nat (f1 + 1) < length s" using f10 by linarith
      have "s ! nat f1 \<le> s ! nat (f1 + 1)"
        using assms(1) cn f10 by (intro sorted_nth_mono) auto
      then have d0: "(0::rat) \<le> of_int (s ! nat (f1 + 1) - s ! nat f1)" by simp
      have "k1 - of_int f1 \<le> k2 - of_int f1" using assms(4) by simp
      then have "RN (k1 - of_int f1) \<le> RN (k2 - of_int f1)" by (rule RN_mono)
      then have "RN (k1 - of_int f1) * of_int (s ! nat (f1 + 1) - s ! nat f1)
            \<le> RN (k2 - of_int f1) * of_int (s ! nat (f1 + 1) - s ! nat f1)"
        using d0 by (rule mult_right_mono)
      then have "RN (RN (k1 - of_int f1) * of_int (s ! nat (f1 + 1) - s ! nat f1))
            \<le> RN (RN (k2 - of_int f1) * of_int (s ! nat (f1 + 1) - s ! nat f1))"
        by (rule RN_mono)
      then have "RN (of_int (s ! nat f1) + RN (RN (k1 - of_int f1) * of_int (s ! nat (f1 + 1) - s ! nat f1)))
            \<le> RN (of_int (s ! nat f1) + RN (RN (k2 - of_int f1) * of_int (s ! nat (f1 + 1) - s ! nat f1)))"
        by (intro RN_mono) simp
      then show ?thesis using lt True
        by (simp add: interp_value_def Let_def f1_def[symmetric] f2_def[symmetric])
    next
      case False
      then show ?thesis using True
        by (simp add: interp_value_def Let_def f1_def[symmetric] f2_def[symmetric])
    qed
  next
    case False
    then have lt: "f1 + 1 \<le> f2" using f12 by simp
    have b1: "\<lfloor>k1\<rfloor> \<le> int (length s) - 1" using f12 assms(5) by (simp add: f1_def f2_def)
    have m: "min (f1 + 1) (int (length s) - 1) = f1 + 1"
      using lt assms(5) by (simp add: f2_def)
    have "interp_value s k1 \<le> of_int (s ! nat (f1 + 1))"
      using interp_value_bounds(2)[OF assms(1,2,3) b1] m by (simp add: f1_def)
    also have "s ! nat (f1 + 1) \<le> s ! nat f2"
      using assms(1,5) lt f10 by (intro sorted_nth_mono) (auto simp: f2_def)
    then have "(of_int (s ! nat (f1 + 1)) :: rat) \<le> of_int (s ! nat f2)" by simp
    also have "of_int (s ! nat f2) \<le> interp_value s k2"
      using interp_value_bounds(1)[OF assms(1,2) k20 assms(5)] by (simp add: f2_def)
    finally show ?thesis .
  qed
qed

lemma value_of_interp [simp]: "value_of (interp s k) = Finite (interp_value s k)"
  by (simp add: interp_def interp_value_def Let_def)

lemma percentile_interp:
  assumes "s \<noteq> []" "int (length s) \<le> 2 ^ 53" "sorted s" "\<forall>x\<in>set s. 0 \<le> x \<and> x \<le> 2 ^ 53"
    "0 \<le> p" "p \<le> 100"
  shows "percentile s p = Inr (interp s (rank s p))"
proof -
  note rb = rank_bounds[OF assms(1,2,5,6)]
  define k where "k = rank s p"
  define f where "f = \<lfloor>k\<rfloor>"
  have f0: "0 \<le> f" using rb(1) by (simp add: f_def k_def)
  have "\<lfloor>rank s p\<rfloor> \<le> \<lfloor>of_int (int (length s) - 1) :: rat\<rfloor>" using rb(2) by (rule floor_mono)
  then have fle: "f \<le> int (length s) - 1" unfolding f_def k_def by (simp only: floor_of_int)
  have fn: "nat f < length s" using fle f0 by linarith
  have iof: "int_of_float (Finite k) = Inr f" using rb(1) by (simp add: f_def k_def)
  have fabs: "\<bar>f\<bar> \<le> 2 ^ 53" using f0 fle assms(2) by simp
  show ?thesis
  proof (cases "f + 1 < int (length s)")
    case True
    then have cn: "nat (f + 1) < length s" using f0 by linarith
    define a where "a = s ! nat f"
    define b where "b = s ! nat (f + 1)"
    have ab: "a \<le> b" unfolding a_def b_def using assms(3) cn f0 by (intro sorted_nth_mono) auto
    have a: "0 \<le> a" "a \<le> 2 ^ 53" using assms(4) fn by (auto simp: a_def)
    have b: "0 \<le> b" "b \<le> 2 ^ 53" using assms(4) cn by (auto simp: b_def)
    define t where "t = RN (k - of_int f)"
    have t: "0 \<le> t" "t \<le> 1" unfolding t_def f_def using frac_round[of k] rb(1) by (auto simp: k_def)
    have d: "0 \<le> b - a" "b - a \<le> 2 ^ 53" using ab a b by auto
    note m = scaled_diff_bounds[OF t d]
    have ix: "py_index s f = Inr a" "py_index s (f + 1) = Inr b"
      using f0 True by (simp_all add: py_index_in_range a_def b_def)
    have c1: "float_of_int f = Inr (Finite (of_int f))" by (rule float_of_int_exact[OF fabs])
    have c2: "float_of_int (b - a) = Inr (Finite (of_int (b - a)))"
      using d by (intro float_of_int_exact) auto
    have c3: "float_of_int a = Inr (Finite (of_int a))"
      using a by (intro float_of_int_exact) auto
    have "\<bar>k - of_int f\<bar> \<le> 1" unfolding f_def by linarith
    then have "\<bar>k - of_int f\<bar> \<le> 2 ^ 54" by simp
    then have s1: "round_double (k - of_int f) = Finite t"
      by (simp add: round_double_small t_def)
    have "(of_int d' :: rat) \<le> 2 ^ 53" if "d' \<le> 2 ^ 53" for d' :: int
    proof -
      have "(of_int d' :: rat) \<le> of_int (2 ^ 53)" using that by (simp only: of_int_le_iff)
      then show ?thesis by simp
    qed
    note up = this
    have dd: "(0::rat) \<le> of_int (b - a)" "(of_int (b - a) :: rat) \<le> 2 ^ 53"
      using d up by simp_all
    have "t * of_int (b - a) \<le> 1 * of_int (b - a)" using t(2) dd(1) by (rule mult_right_mono)
    moreover have "0 \<le> t * of_int (b - a)" using t(1) dd(1) by (rule mult_nonneg_nonneg)
    ultimately have "\<bar>t * of_int (b - a)\<bar> \<le> 2 ^ 54" using dd(2) by simp
    then have s2: "round_double (t * of_int (b - a)) = Finite (RN (t * of_int (b - a)))"
      by (rule round_double_small)
    have aa: "(0::rat) \<le> of_int a" "(of_int a :: rat) \<le> 2 ^ 53" using a up by simp_all
    have "\<bar>of_int a + RN (t * of_int (b - a))\<bar> \<le> 2 ^ 54"
      using m dd aa by simp
    then have s3: "round_double (of_int a + RN (t * of_int (b - a)))
        = Finite (RN (of_int a + RN (t * of_int (b - a))))"
      by (rule round_double_small)
    have "percentile s p = Inr (F (Finite (RN (of_int a + RN (t * of_int (b - a))))))"
      using assms(1) True
      by (simp add: percentile_def rank_truediv[OF assms(1,2,5,6)] k_def[symmetric] iof Let_def
          ix c1 c2 c3 fsub_def s1 s2 s3 del: of_int_diff int_of_float.simps)
    moreover have "interp s k = F (Finite (RN (of_int a + RN (t * of_int (b - a)))))"
      using True by (simp add: interp_def interp_value_def Let_def f_def[symmetric] a_def b_def t_def)
    ultimately show ?thesis by (simp add: k_def)
  next
    case False
    have "percentile s p = Inr (I (s ! nat f))"
      using assms(1) False f0 fle
      by (simp add: percentile_def rank_truediv[OF assms(1,2,5,6)] k_def[symmetric] iof Let_def
          py_index_in_range del: int_of_float.simps)
    moreover have "interp s k = I (s ! nat f)"
      using False by (simp add: interp_def f_def[symmetric])
    ultimately show ?thesis by (simp add: k_def)
  qed
qed

lemma py_min_Min:
  assumes "xs \<noteq> []"
  shows "py_min xs = Inr (Min (set xs))"
proof (cases xs)
  case Nil
  then show ?thesis using assms by simp
next
  case (Cons a list)
  then show ?thesis using Min.set_eq_fold[of a list] by (simp add: py_min_def)
qed

lemma py_max_Max:
  assumes "xs \<noteq> []"
  shows "py_max xs = Inr (Max (set xs))"
proof (cases xs)
  case Nil
  then show ?thesis using assms by simp
next
  case (Cons a list)
  then show ?thesis using Max.set_eq_fold[of a list] by (simp add: py_max_def)
qed

lemma sort_nonempty: "sort xs = [] \<longleftrightarrow> xs = []"
proof
  assume "sort xs = []"
  then have "length (sort xs) = 0" by simp
  then show "xs = []" by simp
qed simp

lemma stats_eval:
  assumes "data \<noteq> []"
    and "int_truediv (sum_list (map fst data)) (int (length data)) = Inr m"
    and "percentile (sort (map fst data)) 50 = Inr a50"
    and "percentile (sort (map fst data)) 90 = Inr a90"
    and "percentile (sort (map fst data)) 95 = Inr a95"
    and "percentile (sort (map fst data)) 99 = Inr a99"
    and "percent_rate (int (length (filter snd data))) (int (length data)) = Inr r"
  shows "stats data name =
     Inr (Some \<lparr>st_name = name, st_n = int (length data),
                st_min = Min (set (map fst data)), st_max = Max (set (map fst data)),
                st_mean = m, st_p50 = a50, st_p90 = a90, st_p95 = a95, st_p99 = a99,
                st_fails = int (length (filter snd data)), st_fail_rate = F r\<rparr>)"
proof -
  have ne: "map fst data \<noteq> []" using assms(1) by simp
  have n0: "int (length data) \<noteq> 0" using assms(1) by simp
  show ?thesis
    using assms(1) n0
    by (simp add: stats_def Let_def py_min_Min[OF ne] py_max_Max[OF ne] assms(2-7))
qed

lemma float_truediv_nonzero:
  assumes "b \<noteq> 0"
  shows "\<exists>r. float_truediv a (Finite b) = Inr r"
  using assms by simp

lemma percent_rate_total:
  assumes "0 \<le> a" "a \<le> b" "0 < b" "b \<le> 2 ^ 53"
  shows "\<exists>r. percent_rate a b = Inr r"
proof -
  have a: "float_of_int a = Inr (Finite (of_int a))" using assms by (intro float_of_int_exact) auto
  have b: "float_of_int b = Inr (Finite (of_int b))" using assms by (intro float_of_int_exact) auto
  have "(of_int b :: rat) \<noteq> 0" using assms(3) by simp
  from float_truediv_nonzero[OF this] show ?thesis
    unfolding percent_rate_def a b bind_err_Inr by blast
qed

lemma sum_list_bounds:
  assumes "\<forall>x\<in>set xs. 0 \<le> x \<and> x \<le> (c::int)"
  shows "0 \<le> sum_list xs" "sum_list xs \<le> int (length xs) * c"
  using assms by (induction xs) (auto simp: algebra_simps intro: add_mono)

lemma mean_total:
  assumes "xs \<noteq> []" "\<forall>x\<in>set xs. 0 \<le> x \<and> x \<le> 2 ^ 53"
  shows "int_truediv (sum_list xs) (int (length xs)) = Inr (Finite (RN (of_int (sum_list xs) / of_int (int (length xs)))))"
proof -
  note sb = sum_list_bounds[OF assms(2)]
  have n: "(0::rat) < of_int (int (length xs))" using assms(1) by simp
  have "(of_int (sum_list xs) :: rat) \<le> of_int (int (length xs) * 2 ^ 53)"
    using sb(2) by (simp only: of_int_le_iff)
  then have "(of_int (sum_list xs) :: rat) \<le> 2 ^ 53 * of_int (int (length xs))" by (simp add: mult.commute)
  then have "(of_int (sum_list xs) :: rat) / of_int (int (length xs)) \<le> 2 ^ 53"
    using n by (simp only: pos_divide_le_eq)
  moreover have "(0::rat) \<le> of_int (sum_list xs)" using sb(1) by (simp only: of_int_0_le_iff)
  then have "(0::rat) \<le> of_int (sum_list xs) / of_int (int (length xs))"
    using n by (intro divide_nonneg_nonneg) auto
  ultimately have "\<bar>of_int (sum_list xs) / of_int (int (length xs)) :: rat\<bar> \<le> 2 powi 1023"
    using p53_le_p1023 by linarith
  moreover have "int (length xs) \<noteq> 0" using assms(1) by simp
  ultimately show ?thesis by (intro int_truediv_finite)
qed

lemma num_le_interp [simp]:
  "num_le (interp s k1) (interp s k2) \<longleftrightarrow> interp_value s k1 \<le> interp_value s k2"
  "num_le (I a) (interp s k) \<longleftrightarrow> of_int a \<le> interp_value s k"
  "num_le (interp s k) (I a) \<longleftrightarrow> interp_value s k \<le> of_int a"
  by (simp_all add: num_le_def)

lemma sort_nth_first_ge_Min:
  assumes "xs \<noteq> []"
  shows "Min (set xs) \<le> sort xs ! 0"
proof -
  have "sort xs \<noteq> []" using assms by (simp add: sort_nonempty)
  then have "sort xs ! 0 \<in> set (sort xs)" using assms by (intro nth_mem) simp
  then show ?thesis by simp
qed

lemma sort_nth_last_le_Max:
  assumes "xs \<noteq> []"
  shows "sort xs ! (length xs - 1) \<le> Max (set xs)"
proof -
  have "sort xs ! (length (sort xs) - 1) \<in> set (sort xs)"
    using assms by (intro nth_mem) simp
  then show ?thesis by simp
qed

lemma interp_value_between:
  assumes "s \<noteq> []" "sorted s" "\<forall>x\<in>set s. 0 \<le> x \<and> x \<le> 2 ^ 53"
    "0 \<le> k" "\<lfloor>k\<rfloor> \<le> int (length s) - 1"
  shows "of_int (s ! 0) \<le> interp_value s k" "interp_value s k \<le> of_int (s ! (length s - 1))"
proof -
  have f0: "0 \<le> \<lfloor>k\<rfloor>" using assms(4) by simp
  have "nat \<lfloor>k\<rfloor> < length s" using assms(5) f0 by linarith
  then have "s ! 0 \<le> s ! nat \<lfloor>k\<rfloor>"
    using assms(2) by (intro sorted_nth_mono) auto
  then have "(of_int (s ! 0) :: rat) \<le> of_int (s ! nat \<lfloor>k\<rfloor>)" by simp
  also have "\<dots> \<le> interp_value s k" by (rule interp_value_bounds(1)[OF assms(2-5)])
  finally show "of_int (s ! 0) \<le> interp_value s k" .
  have "nat (min (\<lfloor>k\<rfloor> + 1) (int (length s) - 1)) \<le> length s - 1" by linarith
  then have "s ! nat (min (\<lfloor>k\<rfloor> + 1) (int (length s) - 1)) \<le> s ! (length s - 1)"
    using assms(1,2) by (intro sorted_nth_mono) auto
  then have "(of_int (s ! nat (min (\<lfloor>k\<rfloor> + 1) (int (length s) - 1))) :: rat)
             \<le> of_int (s ! (length s - 1))" by simp
  with interp_value_bounds(2)[OF assms(2-5)]
  show "interp_value s k \<le> of_int (s ! (length s - 1))" by simp
qed

lemma rank_floor_le:
  assumes "s \<noteq> []" "int (length s) \<le> 2 ^ 53" "0 \<le> p" "p \<le> 100"
  shows "\<lfloor>rank s p\<rfloor> \<le> int (length s) - 1"
proof -
  have "\<lfloor>rank s p\<rfloor> \<le> \<lfloor>of_int (int (length s) - 1) :: rat\<rfloor>"
    using rank_bounds(2)[OF assms] by (rule floor_mono)
  then show ?thesis by (simp only: floor_of_int)
qed

lemma floor_rat_numeral: "\<lfloor>numeral a / numeral b :: rat\<rfloor> = numeral a div numeral b"
  using floor_divide_of_int_eq[of "numeral a" "numeral b", where ?'a = rat] by simp

lemma RN_tie: "RN 9007199254740993 = 9007199254740992"
proof -
  have "(2::rat) powi 53 \<le> \<bar>9007199254740993\<bar>" "\<bar>9007199254740993 :: rat\<bar> < 2 powi (53 + 1)"
    by simp_all
  then have q: "quantum 9007199254740993 = 2 powi (max 53 (- 1022) - 52)" by (rule quantum_eqI)
  have q2: "quantum 9007199254740993 = 2" unfolding q by simp
  have "round_even (9007199254740993 / 2) = 4503599627370496"
    by (simp add: round_even_def Let_def floor_rat_numeral)
  then show ?thesis by (simp add: RN_def q2)
qed

lemma round_double_tie: "round_double 9007199254740993 = Finite 9007199254740992"
proof -
  have "\<bar>9007199254740993 :: rat\<bar> \<le> 2 ^ 54" by simp
  then show ?thesis by (simp add: round_double_small RN_tie)
qed

lemma round_double_numeral:
  assumes "(numeral w :: int) \<le> 2 ^ 53"
  shows "round_double (numeral w) = Finite (numeral w)"
  using round_double_of_int[of "numeral w"] assms by simp

lemma round_double_1 [simp]: "round_double 1 = Finite 1"
  using round_double_of_int[of 1] by simp

lemma round_double_half: "round_double (1 / 2) = Finite (1 / 2)"
  using round_double_dyadic[of 1 1] by simp

lemma float_of_int_0 [simp]: "float_of_int 0 = Inr (Finite 0)"
  by (simp add: float_of_int_def finite_or_overflow_def)

lemma percentile_single: "percentile [x] p = Inr (I x)"
  by (simp add: percentile_def int_truediv_def finite_or_overflow_def py_index_def)

lemma percentile_10_20_30: "percentile [10, 20, 30] 50 = Inr (F (Finite 20))"
  by (simp add: percentile_def int_truediv_def float_of_int_def finite_or_overflow_def
      py_index_def fsub_def round_double_numeral)

lemma percentile_tie:
  "percentile [9007199254740993, 9007199254740993] 50 = Inr (F (Finite 9007199254740992))"
proof -
  have f: "\<lfloor>1 / 2 :: rat\<rfloor> = 0" by linarith
  show ?thesis
    by (simp add: percentile_def int_truediv_def float_of_int_def finite_or_overflow_def
        py_index_def fsub_def round_double_half f round_double_tie round_double_numeral)
qed

lemma percentile_exact_tie:
  "percentile_exact [9007199254740993, 9007199254740993] 50 = 9007199254740993"
proof -
  have f: "\<lfloor>1 / 2 :: rat\<rfloor> = 0" by linarith
  show ?thesis by (simp add: percentile_exact_def Let_def f)
qed

text \<open>The rank of a percentile below 100 in an array of two elements is below 1.\<close>

lemma RN_percent_lt_1:
  assumes "0 \<le> p" "p \<le> 99"
  shows "0 \<le> RN (of_int p / 100)" "RN (of_int p / 100) < 1"
proof -
  have "(0::rat) \<le> of_int p" using assms(1) by simp
  then have "(0::rat) \<le> of_int p / 100" by simp
  then show "0 \<le> RN (of_int p / 100)" by (rule RN_nonneg)
  have "(of_int p :: rat) \<le> of_int 99" using assms(2) by (simp only: of_int_le_iff)
  then have "(of_int p :: rat) / 100 \<le> 127 / 128" by simp
  then have "RN (of_int p / 100) \<le> RN (127 / 128)" by (rule RN_mono)
  also have "RN (127 / 128) = 127 / 128" using RN_dyadic[of 127 "- 7"] by (simp add: power_int_minus)
  finally show "RN (of_int p / 100) < 1" by simp
qed

lemma percentile_pair_tie:
  assumes "0 \<le> p" "p \<le> 99"
  shows "percentile [9007199254740993, 9007199254740993] p = Inr (F (Finite 9007199254740992))"
proof -
  note b = RN_percent_lt_1[OF assms]
  have "\<bar>of_int p / 100 :: rat\<bar> \<le> 2 ^ 54"
  proof -
    have "(of_int p :: rat) \<le> of_int 99" using assms(2) by (simp only: of_int_le_iff)
    moreover have "(0::rat) \<le> of_int p" using assms(1) by simp
    ultimately show ?thesis by simp
  qed
  then have k: "round_double (of_int p / 100) = Finite (RN (of_int p / 100))"
    by (rule round_double_small)
  have f: "\<lfloor>RN (of_int p / 100)\<rfloor> = 0" using b by linarith
  have "\<bar>RN (of_int p / 100)\<bar> \<le> 2 ^ 54" using b by simp
  then have t: "round_double (RN (of_int p / 100)) = Finite (RN (RN (of_int p / 100)))"
    by (rule round_double_small)
  show ?thesis
    using b(1)
    by (simp add: percentile_def int_truediv_def float_of_int_def finite_or_overflow_def
        py_index_def fsub_def k f t round_double_tie round_double_numeral)
qed

lemma stats_pair_tie:
  "stats [(9007199254740993, False), (9007199254740993, False)] name =
     Inr (Some \<lparr>st_name = name, st_n = 2, st_min = 9007199254740993, st_max = 9007199254740993,
                st_mean = Finite 9007199254740992,
                st_p50 = F (Finite 9007199254740992), st_p90 = F (Finite 9007199254740992),
                st_p95 = F (Finite 9007199254740992), st_p99 = F (Finite 9007199254740992),
                st_fails = 0, st_fail_rate = F (Finite 0)\<rparr>)"
proof -
  have r2: "round_double 2 = Finite 2" by (simp add: round_double_numeral)
  show ?thesis
    by (simp add: stats_def Let_def py_min_def py_max_def percentile_pair_tie int_truediv_def
        finite_or_overflow_def round_double_tie percent_rate_def float_of_int_def r2)
qed

lemma stats_single_tie:
  "stats [(9007199254740993, False)] name =
     Inr (Some \<lparr>st_name = name, st_n = 1, st_min = 9007199254740993, st_max = 9007199254740993,
                st_mean = Finite 9007199254740992,
                st_p50 = I 9007199254740993, st_p90 = I 9007199254740993,
                st_p95 = I 9007199254740993, st_p99 = I 9007199254740993,
                st_fails = 0, st_fail_rate = F (Finite 0)\<rparr>)"
  by (simp add: stats_def Let_def py_min_def py_max_def percentile_single int_truediv_def
      finite_or_overflow_def round_double_tie percent_rate_def float_of_int_def)

section \<open>Claims about percentile and stats\<close>

text \<open>
  Claim C10. The percentile helper is total on the empty array: for every \<open>p\<close> it
  returns the integer 0 and does not raise; \<open>stats\<close> does not reach that case, since it
  returns \<^verbatim>\<open>None\<close> for an empty series before any call of percentile.
\<close>

theorem percentile_empty_total: "percentile [] p = Inr (I 0) \<and> stats [] name = Inr None"
  by (simp add: percentile_def stats_def)

text \<open>
  Claim C2, as stated, fails: the result is computed in floating point and is not the
  value of the formula. For the ascending array of twice \<open>2^53 + 1\<close> the formula gives
  \<open>2^53 + 1\<close> at \<open>p = 50\<close>, and percentile returns the float \<open>2^53\<close>, the nearest double
  to the element.
\<close>

theorem percentile_rounding_counterexample:
  "percentile [9007199254740993, 9007199254740993] 50 = Inr (F (Finite 9007199254740992))
   \<and> percentile_exact [9007199254740993, 9007199254740993] 50 = 9007199254740993"
  using percentile_tie percentile_exact_tie by simp

text \<open>
  Claim C2, amended. For a non-empty array \<open>s\<close>, sorted or not, and \<open>p\<close> one of 50, 90,
  95, 99, percentile returns the linear interpolation of the specification evaluated in
  the arithmetic of the interpreter (\<open>percentile_spec\<close>): each of the quotient, the
  difference, the product and the sum is rounded to the nearest double, the result is a
  float when \<open>c > f\<close> and the integer \<open>s[f]\<close> otherwise, and what the arithmetic raises
  is raised. The 50th percentile of \<open>[10, 20, 30]\<close> is the float 20, and every such
  percentile of a one-element array is its element.
\<close>

theorem percentile_linear_interpolation:
  assumes "s \<noteq> []" "p \<in> {50, 90, 95, 99}"
  shows "percentile s p = percentile_spec s p
       \<and> percentile [10, 20, 30] 50 = Inr (F (Finite 20))
       \<and> percentile [x] p = Inr (I x)"
proof -
  have p: "0 \<le> p" using assms(2) by auto
  show ?thesis
    using percentile_refines[OF assms(1) p] percentile_10_20_30 percentile_single by simp
qed

theorem percentile_linear_interpolation_witness:
  "percentile [10, 20, 30] 90 = percentile_spec [10, 20, 30] 90
   \<and> percentile [10, 20, 30] 50 = Inr (F (Finite 20))
   \<and> percentile [7] 90 = Inr (I 7)"
  using percentile_linear_interpolation[of "[10, 20, 30]" 90 7] by simp

text \<open>
  Claim C3, as stated, fails: for the series of two events of \<open>2^53 + 1\<close> ms the minimum
  is the integer \<open>2^53 + 1\<close> and the 50th percentile is the float \<open>2^53\<close>, which is
  smaller.
\<close>

theorem stats_ordering_counterexample:
  "\<exists>st. stats [(9007199254740993, False), (9007199254740993, False)] ''a'' = Inr (Some st)
         \<and> st_min st = 9007199254740993
         \<and> st_p50 st = F (Finite 9007199254740992)
         \<and> \<not> num_le (I (st_min st)) (st_p50 st)"
  by (simp add: stats_pair_tie num_le_def)

text \<open>
  Claim C3, amended. For a non-empty series of at most \<open>2^53\<close> events whose durations
  are at most \<open>2^53\<close> ms (the extractor reads no negative duration), stats returns a
  summary with \<open>min \<le> p50 \<le> p90 \<le> p95 \<le> p99 \<le> max\<close> and \<open>fails \<le> n\<close>, the numbers
  compared by their values.
\<close>

theorem stats_ordering:
  assumes "data \<noteq> []" "int (length data) \<le> 2 ^ 53" "\<forall>e\<in>set data. 0 \<le> fst e \<and> fst e \<le> 2 ^ 53"
  shows "\<exists>st. stats data name = Inr (Some st)
           \<and> num_le (I (st_min st)) (st_p50 st) \<and> num_le (st_p50 st) (st_p90 st)
           \<and> num_le (st_p90 st) (st_p95 st) \<and> num_le (st_p95 st) (st_p99 st)
           \<and> num_le (st_p99 st) (I (st_max st))
           \<and> st_fails st \<le> st_n st"
proof -
  define ms where "ms = map fst data"
  define s where "s = sort ms"
  have ms: "ms \<noteq> []" using assms(1) by (simp add: ms_def)
  have s: "s \<noteq> []" "sorted s" using ms by (simp_all add: s_def sort_nonempty)
  have len: "int (length s) \<le> 2 ^ 53" using assms(2) by (simp add: s_def ms_def)
  have el: "\<forall>x\<in>set ms. 0 \<le> x \<and> x \<le> 2 ^ 53" using assms(3) by (auto simp: ms_def)
  then have els: "\<forall>x\<in>set s. 0 \<le> x \<and> x \<le> 2 ^ 53" by (simp add: s_def)
  have pc: "percentile s p = Inr (interp s (rank s p))" if "0 \<le> p" "p \<le> 100" for p
    using s(1) len s(2) els that by (rule percentile_interp)
  have m: "int_truediv (sum_list (map fst data)) (int (length data))
             = Inr (Finite (RN (of_int (sum_list ms) / of_int (int (length ms)))))"
    using mean_total[OF ms el] by (simp add: ms_def)
  have "0 < int (length data)" using assms(1) by simp
  moreover have "int (length (filter snd data)) \<le> int (length data)" by simp
  ultimately obtain r where r: "percent_rate (int (length (filter snd data))) (int (length data)) = Inr r"
    using percent_rate_total[of "int (length (filter snd data))" "int (length data)"] assms(2) by auto
  have st: "stats data name =
     Inr (Some \<lparr>st_name = name, st_n = int (length data),
                st_min = Min (set ms), st_max = Max (set ms),
                st_mean = Finite (RN (of_int (sum_list ms) / of_int (int (length ms)))),
                st_p50 = interp s (rank s 50), st_p90 = interp s (rank s 90),
                st_p95 = interp s (rank s 95), st_p99 = interp s (rank s 99),
                st_fails = int (length (filter snd data)), st_fail_rate = F r\<rparr>)"
  proof -
    have p50: "percentile (sort (map fst data)) 50 = Inr (interp s (rank s 50))"
      using pc[of 50] by (simp add: s_def ms_def)
    have p90: "percentile (sort (map fst data)) 90 = Inr (interp s (rank s 90))"
      using pc[of 90] by (simp add: s_def ms_def)
    have p95: "percentile (sort (map fst data)) 95 = Inr (interp s (rank s 95))"
      using pc[of 95] by (simp add: s_def ms_def)
    have p99: "percentile (sort (map fst data)) 99 = Inr (interp s (rank s 99))"
      using pc[of 99] by (simp add: s_def ms_def)
    show ?thesis
      using stats_eval[OF assms(1) m p50 p90 p95 p99 r] by (simp add: ms_def)
  qed
  have k0: "0 \<le> rank s p" if "0 \<le> p" "p \<le> 100" for p
    using rank_bounds(1)[OF s(1) len that] .
  have kf: "\<lfloor>rank s p\<rfloor> \<le> int (length s) - 1" if "0 \<le> p" "p \<le> 100" for p
    using rank_floor_le[OF s(1) len that] .
  have mono: "interp_value s (rank s p) \<le> interp_value s (rank s q)"
    if "0 \<le> p" "p \<le> q" "q \<le> 100" for p q
  proof -
    have p: "p \<le> 100" "0 \<le> q" using that by auto
    show ?thesis
      using s(2) els k0[OF that(1) p(1)] rank_mono[OF s(1) that(2)] kf[OF p(2) that(3)]
      by (rule interp_value_mono)
  qed
  have "of_int (s ! 0) \<le> interp_value s (rank s 50)"
    by (rule interp_value_between(1)[OF s els k0 kf]) simp_all
  moreover have "Min (set ms) \<le> s ! 0" unfolding s_def by (rule sort_nth_first_ge_Min[OF ms])
  then have "(of_int (Min (set ms)) :: rat) \<le> of_int (s ! 0)" by (simp only: of_int_le_iff)
  ultimately have lo: "of_int (Min (set ms)) \<le> interp_value s (rank s 50)" by linarith
  have "interp_value s (rank s 99) \<le> of_int (s ! (length s - 1))"
    by (rule interp_value_between(2)[OF s els k0 kf]) simp_all
  moreover have "s ! (length s - 1) \<le> Max (set ms)"
    using sort_nth_last_le_Max[OF ms] by (simp add: s_def)
  then have "(of_int (s ! (length s - 1)) :: rat) \<le> of_int (Max (set ms))" by (simp only: of_int_le_iff)
  ultimately have hi: "interp_value s (rank s 99) \<le> of_int (Max (set ms))" by linarith
  have m1: "interp_value s (rank s 50) \<le> interp_value s (rank s 90)" by (rule mono) simp_all
  have m2: "interp_value s (rank s 90) \<le> interp_value s (rank s 95)" by (rule mono) simp_all
  have m3: "interp_value s (rank s 95) \<le> interp_value s (rank s 99)" by (rule mono) simp_all
  show ?thesis unfolding st using lo hi m1 m2 m3 by simp
qed

theorem stats_ordering_witness:
  "\<exists>st. stats [(120, False), (340, True)] ''a'' = Inr (Some st)
           \<and> num_le (I (st_min st)) (st_p50 st) \<and> num_le (st_p50 st) (st_p90 st)
           \<and> num_le (st_p90 st) (st_p95 st) \<and> num_le (st_p95 st) (st_p99 st)
           \<and> num_le (st_p99 st) (I (st_max st))
           \<and> st_fails st \<le> st_n st"
  by (rule stats_ordering) simp_all

text \<open>
  Claim C8, as stated, fails: for the series of one event of \<open>2^53 + 1\<close> ms the mean is
  the float \<open>2^53\<close>, not the duration.
\<close>

theorem stats_constant_counterexample:
  "\<exists>st. stats [(9007199254740993, False)] ''a'' = Inr (Some st)
         \<and> st_min st = 9007199254740993
         \<and> st_mean st = Finite 9007199254740992
         \<and> st_mean st \<noteq> Finite (of_int (st_min st))"
  by (simp add: stats_single_tie)

text \<open>
  Claim C8, amended. For a non-empty series of at most \<open>2^53\<close> events whose durations
  all equal \<open>v\<close>, with \<open>0 \<le> v \<le> 2^53\<close>, stats returns \<open>min = max = v\<close>, the mean is the
  float \<open>v\<close>, and each of \<open>p50\<close>, \<open>p90\<close>, \<open>p95\<close>, \<open>p99\<close> equals \<open>v\<close> (it is the integer
  \<open>v\<close> for a series of one event and the float \<open>v\<close> otherwise).
\<close>

theorem stats_constant:
  assumes "data \<noteq> []" "int (length data) \<le> 2 ^ 53" "\<forall>e\<in>set data. fst e = v"
    "0 \<le> v" "v \<le> 2 ^ 53"
  shows "\<exists>st. stats data name = Inr (Some st)
           \<and> st_min st = v \<and> st_max st = v \<and> st_mean st = Finite (of_int v)
           \<and> num_eq (st_p50 st) (I v) \<and> num_eq (st_p90 st) (I v)
           \<and> num_eq (st_p95 st) (I v) \<and> num_eq (st_p99 st) (I v)"
proof -
  define ms where "ms = map fst data"
  have "\<forall>y\<in>set ms. y = v" using assms(3) by (auto simp: ms_def)
  then have "replicate (length ms) v = ms" by (rule replicate_length_same)
  then have rep: "ms = replicate (length data) v" by (simp add: ms_def)
  have len: "0 < length data" using assms(1) by simp
  have set: "set ms = {v}" using len by (subst rep) simp
  have s: "sort ms = ms" by (subst (1 2) rep) simp
  have ne: "ms \<noteq> []" "sorted ms" using assms(1) rep by (simp_all add: ms_def)
  have lms: "int (length ms) \<le> 2 ^ 53" using assms(2) by (simp add: ms_def)
  have el: "\<forall>x\<in>set ms. 0 \<le> x \<and> x \<le> 2 ^ 53" using set assms(4,5) by simp
  have nth: "ms ! 0 = v" "ms ! (length ms - 1) = v" using len by (subst rep; simp)+
  have pc: "percentile ms p = Inr (interp ms (rank ms p)) \<and> interp_value ms (rank ms p) = of_int v"
    if p: "0 \<le> p" "p \<le> 100" for p
  proof -
    have k0: "0 \<le> rank ms p" using rank_bounds(1)[OF ne(1) lms p] .
    have kf: "\<lfloor>rank ms p\<rfloor> \<le> int (length ms) - 1" using rank_floor_le[OF ne(1) lms p] .
    have "of_int v \<le> interp_value ms (rank ms p)" "interp_value ms (rank ms p) \<le> of_int v"
      using interp_value_between[OF ne el k0 kf] nth by simp_all
    then show ?thesis using percentile_interp[OF ne(1) lms ne(2) el p] by simp
  qed
  have "sum_list ms = int (length data) * v" by (subst rep) (simp add: sum_list_replicate)
  then have "(of_int (sum_list ms) :: rat) / of_int (int (length ms)) = of_int v"
    using len by (simp add: ms_def)
  moreover have "RN (of_int v) = of_int v" using assms(4,5) by (intro RN_of_int) auto
  ultimately have m: "int_truediv (sum_list (map fst data)) (int (length data)) = Inr (Finite (of_int v))"
    using mean_total[OF ne(1) el] by (simp add: ms_def)
  have "0 < int (length data)" using assms(1) by simp
  moreover have "int (length (filter snd data)) \<le> int (length data)" by simp
  ultimately obtain r where r: "percent_rate (int (length (filter snd data))) (int (length data)) = Inr r"
    using percent_rate_total[of "int (length (filter snd data))" "int (length data)"] assms(2) by auto
  have p50: "percentile (sort (map fst data)) 50 = Inr (interp ms (rank ms 50))"
    using pc[of 50] s by (simp add: ms_def)
  have p90: "percentile (sort (map fst data)) 90 = Inr (interp ms (rank ms 90))"
    using pc[of 90] s by (simp add: ms_def)
  have p95: "percentile (sort (map fst data)) 95 = Inr (interp ms (rank ms 95))"
    using pc[of 95] s by (simp add: ms_def)
  have p99: "percentile (sort (map fst data)) 99 = Inr (interp ms (rank ms 99))"
    using pc[of 99] s by (simp add: ms_def)
  show ?thesis
    unfolding stats_eval[OF assms(1) m p50 p90 p95 p99 r]
    using set pc[of 50] pc[of 90] pc[of 95] pc[of 99]
    by (simp add: num_eq_def ms_def[symmetric])
qed

theorem stats_constant_witness:
  "\<exists>st. stats [(7, False), (7, True), (7, False)] ''a'' = Inr (Some st)
           \<and> st_min st = 7 \<and> st_max st = 7 \<and> st_mean st = Finite 7
           \<and> num_eq (st_p50 st) (I 7) \<and> num_eq (st_p90 st) (I 7)
           \<and> num_eq (st_p95 st) (I 7) \<and> num_eq (st_p99 st) (I 7)"
  using stats_constant[of "[(7, False), (7, True), (7, False)]" 7 "''a''"] by simp

section \<open>Properties of segment_avgs\<close>

lemma float_of_int_cases:
  "float_of_int i = (if convertible i then Inr (Finite (RN (of_int i))) else Inl OverflowError)"
  by (auto simp: float_of_int_def finite_or_overflow_def round_double_def Let_def convertible_def)

lemma convertible_small:
  assumes "\<bar>of_int i :: rat\<bar> \<le> 2 powi 1023"
  shows "convertible i"
proof -
  have "\<bar>RN (of_int i)\<bar> \<le> 2 powi 1023" using assms by (intro RN_bounded) auto
  moreover have "(2::rat) powi 1023 < 2 powi 1024" by (intro power_int_strict_increasing) auto
  ultimately show ?thesis unfolding convertible_def by linarith
qed

lemma seg_size_nonneg:
  assumes "0 \<le> n" "1 \<le> N"
  shows "0 \<le> seg_size n N"
proof -
  have "(0::rat) \<le> of_int n / of_int N" using assms by (intro divide_nonneg_nonneg) auto
  then show ?thesis unfolding seg_size_def by (rule RN_nonneg)
qed

lemma quantum_subnormal:
  assumes "0 < x" "x < 2 powi (- 1022)"
  shows "quantum x = 2 powi (- 1074)"
proof -
  have "2 powi expo x \<le> x" using expo_bounds(1)[OF assms(1)] .
  then have "(2::rat) powi expo x < 2 powi (- 1022)" using assms(2) by linarith
  moreover have "(2::rat) powi (- 1022) \<le> 2 powi expo x" if "- 1022 \<le> expo x"
    using that by (intro power_int_increasing) auto
  ultimately have "expo x < - 1022" by force
  then have "max (expo x) (- 1022) - 52 = - 1074" by simp
  then show ?thesis using assms(1) by (simp add: quantum_def)
qed

lemma RN_upper_rel:
  assumes "0 < x"
  shows "RN x \<le> x + x / 2 ^ 53 + 2 powi (- 1075)"
proof (cases "2 powi (- 1022) \<le> x")
  case True
  have "\<bar>RN x - x\<bar> \<le> x / 2 ^ 53" using True by (rule RN_error_rel)
  moreover have "(0::rat) \<le> 2 powi (- 1075)" by simp
  ultimately show ?thesis by linarith
next
  case False
  then have q: "quantum x = 2 powi (- 1074)" using assms by (intro quantum_subnormal) auto
  have "(2::rat) powi (- 1074) = 2 powi (- 1075 + 1)" by simp
  also have "\<dots> = 2 powi (- 1075) * 2" by (subst power_int_add) auto
  finally have h: "quantum x / 2 = 2 powi (- 1075)" by (simp add: q)
  have "\<bar>RN x - x\<bar> \<le> 2 powi (- 1075)" using RN_error_quantum[of x] by (simp add: h)
  moreover have "0 \<le> x / 2 ^ 53" using assms by simp
  ultimately show ?thesis by linarith
qed

text \<open>The product that the loop truncates stays below \<open>n + 1\<close>.\<close>

lemma prod_bound:
  assumes "1 \<le> n" "n < 2 ^ 51" "1 \<le> N" "0 \<le> j" "j < N" "convertible j"
  shows "0 \<le> RN (of_int j) * seg_size n N" "RN (of_int j) * seg_size n N \<le> of_int n + 3 / 4"
proof -
  define R :: rat where "R = RN (of_int j)"
  define x :: rat where "x = of_int n / of_int N"
  define u :: rat where "u = 1 / 2 ^ 53"
  have R0: "0 \<le> R" unfolding R_def using assms(4) by (intro RN_nonneg) auto
  have s0: "0 \<le> seg_size n N" using assms(1,3) by (intro seg_size_nonneg) auto
  show "0 \<le> RN (of_int j) * seg_size n N" using R0 s0 by (simp add: R_def)
  have x0: "0 < x" unfolding x_def using assms(1,3) by (intro divide_pos_pos) auto
  have u0: "0 \<le> u" "u \<le> 1" by (simp_all add: u_def)
  have nr: "(of_int n :: rat) \<le> 2 ^ 51"
  proof -
    have "(of_int n :: rat) \<le> of_int (2 ^ 51)" using assms(2) by (simp only: of_int_le_iff)
    then show ?thesis by simp
  qed
  have n0: "(0::rat) \<le> of_int n" using assms(1) by simp
  have Rlt: "R < 2 powi 1024" using assms(6) R0 by (simp add: convertible_def R_def)
  have Rj: "R \<le> of_int j * (1 + u)"
  proof (cases "j = 0")
    case True
    then show ?thesis by (simp add: R_def)
  next
    case False
    then have "(1::rat) \<le> of_int j" using assms(4) by simp
    moreover have "(2::rat) powi (- 1022) \<le> 1" by (simp add: power_int_minus field_simps)
    ultimately have "2 powi (- 1022) \<le> (of_int j :: rat)" by linarith
    then have "\<bar>RN (of_int j) - of_int j\<bar> \<le> (of_int j :: rat) / 2 ^ 53" by (rule RN_error_rel)
    then have "RN (of_int j) \<le> (of_int j :: rat) + of_int j / 2 ^ 53" by linarith
    also have "(of_int j :: rat) + of_int j / 2 ^ 53 = of_int j * (1 + u)"
      by (simp add: u_def algebra_simps)
    finally show ?thesis by (simp add: R_def)
  qed
  have "x + x / 2 ^ 53 = x * (1 + u)" by (simp add: u_def algebra_simps)
  then have sx: "seg_size n N \<le> x * (1 + u) + 2 powi (- 1075)"
    using RN_upper_rel[OF x0] by (simp add: seg_size_def x_def)
  have jN: "of_int j * x \<le> (of_int n :: rat)"
  proof -
    have "(of_int j :: rat) \<le> of_int N" using assms(5) by simp
    then have "of_int j * of_int n \<le> (of_int N :: rat) * of_int n"
      using n0 by (rule mult_right_mono)
    moreover have "(0::rat) < of_int N" using assms(3) by simp
    ultimately show ?thesis unfolding x_def by (simp add: field_simps)
  qed
  have "R * seg_size n N \<le> R * (x * (1 + u) + 2 powi (- 1075))"
    using sx R0 by (rule mult_left_mono)
  also have "\<dots> = R * (x * (1 + u)) + R * 2 powi (- 1075)" by (simp add: algebra_simps)
  also have "R * (x * (1 + u)) \<le> (of_int j * (1 + u)) * (x * (1 + u))"
    using Rj x0 u0 by (intro mult_right_mono) auto
  also have "(of_int j * (1 + u)) * (x * (1 + u)) = (of_int j * x) * ((1 + u) * (1 + u))"
    by (simp add: algebra_simps)
  also have "\<dots> \<le> of_int n * ((1 + u) * (1 + u))"
    using jN u0 by (intro mult_right_mono) auto
  also have "R * 2 powi (- 1075) \<le> 2 powi 1024 * 2 powi (- 1075)"
    using Rlt by (intro mult_right_mono) auto
  also have "(2::rat) powi 1024 * 2 powi (- 1075) = 2 powi (- 51)"
    by (subst power_int_add[symmetric]) auto
  finally have A: "R * seg_size n N \<le> of_int n * ((1 + u) * (1 + u)) + 2 powi (- 51)" by simp
  have "(1 + u) * (1 + u) = 1 + (2 * u + u * u)" by (simp add: algebra_simps)
  moreover have "u * u \<le> u * (1 / 4)" using u0 by (intro mult_left_mono) (auto simp: u_def)
  ultimately have "(1 + u) * (1 + u) \<le> 1 + 9 / 4 * u" by simp
  then have "of_int n * ((1 + u) * (1 + u)) \<le> of_int n * (1 + 9 / 4 * u)"
    using n0 by (rule mult_left_mono)
  also have "\<dots> = of_int n + of_int n * (9 / 4 * u)" by (simp add: algebra_simps)
  also have "of_int n * (9 / 4 * u) \<le> 2 ^ 51 * (9 / 4 * u)" using nr u0 by (intro mult_right_mono) auto
  also have "(2::rat) ^ 51 * (9 / 4 * u) = 9 / 16" by (simp add: u_def)
  finally have B: "of_int n * ((1 + u) * (1 + u)) \<le> of_int n + 9 / 16" by simp
  have "(2::rat) powi (- 51) \<le> 1 / 16" by (simp add: power_int_minus field_simps)
  with A B have "R * seg_size n N \<le> of_int n + 3 / 4" by linarith
  then show "RN (of_int j) * seg_size n N \<le> of_int n + 3 / 4" by (simp add: R_def)
qed

lemma RN_three_quarters:
  assumes "0 \<le> n" "n < 2 ^ 51"
  shows "RN (of_int n + 3 / 4) = of_int n + 3 / 4"
proof -
  have a: "\<bar>4 * n + 3\<bar> \<le> 2 ^ 53" using assms by simp
  have e: "of_int n + 3 / 4 = (of_int (4 * n + 3) :: rat) * 2 powi (- 2)"
    by (simp add: power_int_minus field_simps)
  show ?thesis unfolding e using a by (intro RN_dyadic) auto
qed

lemma rounded_prod_bound:
  assumes "1 \<le> n" "n < 2 ^ 51" "1 \<le> N" "0 \<le> j" "j < N" "convertible j"
  shows "0 \<le> RN (RN (of_int j) * seg_size n N)"
    and "RN (RN (of_int j) * seg_size n N) \<le> of_int n + 3 / 4"
    and "round_double (RN (of_int j) * seg_size n N) = Finite (RN (RN (of_int j) * seg_size n N))"
proof -
  note pb = prod_bound[OF assms]
  show "0 \<le> RN (RN (of_int j) * seg_size n N)" using pb(1) by (rule RN_nonneg)
  have "RN (RN (of_int j) * seg_size n N) \<le> RN (of_int n + 3 / 4)" using pb(2) by (rule RN_mono)
  then show "RN (RN (of_int j) * seg_size n N) \<le> of_int n + 3 / 4"
    using RN_three_quarters[of n] assms(1,2) by simp
  have "(of_int n :: rat) \<le> of_int (2 ^ 51)" using assms(2) by (simp only: of_int_le_iff)
  then have "(of_int n :: rat) + 3 / 4 \<le> 2 ^ 54" by simp
  then have "\<bar>RN (of_int j) * seg_size n N\<bar> \<le> 2 ^ 54" using pb by linarith
  then show "round_double (RN (of_int j) * seg_size n N) = Finite (RN (RN (of_int j) * seg_size n N))"
    by (rule round_double_small)
qed

lemma bnd_le:
  assumes "1 \<le> n" "n < 2 ^ 51" "1 \<le> N" "0 \<le> j" "convertible j \<or> N \<le> j"
  shows "bnd n N j \<le> n"
proof (cases "j < N")
  case True
  then have c: "convertible j" using assms(5) by auto
  have "RN (RN (of_int j) * seg_size n N) < of_int (n + 1)"
    using rounded_prod_bound(2)[OF assms(1-4) True c] by simp
  then have "\<lfloor>RN (RN (of_int j) * seg_size n N)\<rfloor> < n + 1" by (simp only: floor_less_iff)
  then show ?thesis using True by (simp add: bnd_def)
next
  case False
  then show ?thesis by (simp add: bnd_def)
qed

lemma bnd_0:
  assumes "1 \<le> N"
  shows "bnd n N 0 = 0"
  using assms by (simp add: bnd_def)

lemma bnd_full: "bnd n N N = n"
  by (simp add: bnd_def)

lemma bnd_mono_below:
  assumes "0 \<le> n" "1 \<le> N" "0 \<le> i" "i \<le> j" "j < N"
  shows "bnd n N i \<le> bnd n N j"
proof -
  have "(of_int i :: rat) \<le> of_int j" using assms(4) by simp
  then have "RN (of_int i) \<le> RN (of_int j)" by (rule RN_mono)
  then have "RN (of_int i) * seg_size n N \<le> RN (of_int j) * seg_size n N"
    using seg_size_nonneg[OF assms(1,2)] by (rule mult_right_mono)
  then have "RN (RN (of_int i) * seg_size n N) \<le> RN (RN (of_int j) * seg_size n N)" by (rule RN_mono)
  then have "\<lfloor>RN (RN (of_int i) * seg_size n N)\<rfloor> \<le> \<lfloor>RN (RN (of_int j) * seg_size n N)\<rfloor>"
    by (rule floor_mono)
  then show ?thesis using assms(4,5) by (simp add: bnd_def)
qed

lemma bnd_nonneg:
  assumes "0 \<le> n" "1 \<le> N" "0 \<le> i"
  shows "0 \<le> bnd n N i"
proof (cases "i < N")
  case True
  then show ?thesis using bnd_mono_below[OF assms(1,2) _ assms(3) True] bnd_0[OF assms(2)] by simp
next
  case False
  then show ?thesis using assms(1) by (simp add: bnd_def)
qed

text \<open>Consecutive boundaries are ordered when the loop index converts.\<close>

lemma bnd_step:
  assumes "1 \<le> n" "n < 2 ^ 51" "1 \<le> N" "0 \<le> i" "i < N" "convertible i"
  shows "bnd n N i \<le> bnd n N (i + 1)"
proof (cases "i + 1 < N")
  case True
  show ?thesis using assms(1,3,4) True by (intro bnd_mono_below) auto
next
  case False
  then have "bnd n N (i + 1) = n" by (simp add: bnd_def)
  then show ?thesis using bnd_le[OF assms(1-4)] assms(6) by simp
qed

lemma scaled_cases:
  assumes "1 \<le> n" "n < 2 ^ 51" "1 \<le> N" "0 \<le> i" "i < N"
  shows "scaled i (Finite (seg_size n N))
           = (if convertible i then Inr (bnd n N i) else Inl OverflowError)"
proof (cases "convertible i")
  case True
  note r = rounded_prod_bound[OF assms True]
  show ?thesis
    using True assms(5) r(1) by (simp add: scaled_def float_of_int_cases r(3) bnd_def)
next
  case False
  then show ?thesis by (simp add: scaled_def float_of_int_cases)
qed

lemma seg_start_cases:
  assumes "1 \<le> n" "n < 2 ^ 51" "1 \<le> N" "0 \<le> i" "i < N"
  shows "seg_start (Finite (seg_size n N)) i
           = (if convertible i then Inr (bnd n N i) else Inl OverflowError)"
  unfolding seg_start_def by (rule scaled_cases[OF assms])

lemma seg_end_cases:
  assumes "1 \<le> n" "n < 2 ^ 51" "1 \<le> N" "0 \<le> i" "i < N"
  shows "seg_end n (Finite (seg_size n N)) N i
           = (if i < N - 1 \<and> \<not> convertible (i + 1) then Inl OverflowError
              else Inr (bnd n N (i + 1)))"
proof (cases "i < N - 1")
  case True
  then have "0 \<le> i + 1" "i + 1 < N" using assms(4) by auto
  from scaled_cases[OF assms(1-3) this] True show ?thesis by (simp add: seg_end_def)
next
  case False
  then have "i + 1 = N" using assms(5) by simp
  then show ?thesis using False by (simp add: seg_end_def bnd_def)
qed

lemma seg_size_truediv:
  assumes "1 \<le> n" "n < 2 ^ 51" "1 \<le> N"
  shows "int_truediv n N = Inr (Finite (seg_size n N))"
proof -
  have "(of_int n :: rat) \<le> of_int (2 ^ 51)" using assms(2) by (simp only: of_int_le_iff)
  then have n: "(of_int n :: rat) \<le> 2 ^ 51" by simp
  have N: "(1::rat) \<le> of_int N" using assms(3) by simp
  have "(of_int n :: rat) / of_int N \<le> of_int n / 1"
    using N assms(1) by (intro divide_left_mono) auto
  moreover have "(0::rat) \<le> of_int n / of_int N" using assms(1,3) by (intro divide_nonneg_nonneg) auto
  moreover have "(2::rat) ^ 51 \<le> 2 ^ 53" by simp
  ultimately have "\<bar>of_int n / of_int N :: rat\<bar> \<le> 2 powi 1023"
    using n p53_le_p1023 by linarith
  moreover have "N \<noteq> 0" using assms(3) by simp
  ultimately show ?thesis unfolding seg_size_def by (intro int_truediv_finite)
qed

lemma py_slice_take_drop:
  assumes "0 \<le> a" "a \<le> b" "b \<le> int (length xs)"
  shows "py_slice xs a b = take (nat b - nat a) (drop (nat a) xs)"
  using assms by (simp add: py_slice_def slice_bound_def Let_def min_def)

lemma length_py_slice:
  assumes "0 \<le> a" "a \<le> b" "b \<le> int (length xs)"
  shows "int (length (py_slice xs a b)) = b - a"
  using assms by (simp add: py_slice_take_drop)

lemma py_slice_map: "py_slice (map f xs) a b = map f (py_slice xs a b)"
  by (simp add: py_slice_def Let_def take_map drop_map)

lemma set_py_slice: "set (py_slice xs a b) \<subseteq> set xs"
  unfolding py_slice_def Let_def by (meson set_take_subset set_drop_subset subset_trans)

lemma take_append_py_slice:
  assumes "0 \<le> a" "a \<le> b" "b \<le> int (length xs)"
  shows "take (nat a) xs @ py_slice xs a b = take (nat b) xs"
proof -
  have "nat b = nat a + (nat b - nat a)" using assms by simp
  then have "take (nat b) xs = take (nat a) xs @ take (nat b - nat a) (drop (nat a) xs)"
    by (metis take_add)
  then show ?thesis using assms by (simp add: py_slice_take_drop)
qed

lemma count_true_bounds: "0 \<le> count_true bs" "count_true bs \<le> int (length bs)"
  by (induction bs) (auto simp: count_true_def)

lemma int_truediv_error:
  assumes "b \<noteq> 0" "int_truediv a b = Inl e"
  shows "e = OverflowError"
  using assms by (auto simp: int_truediv_def finite_or_overflow_def split: double.splits)

lemma sum_list_abs_bound:
  assumes "\<forall>x\<in>set xs. \<bar>x\<bar> \<le> (c::int)"
  shows "\<bar>sum_list xs\<bar> \<le> int (length xs) * c"
  using assms
proof (induction xs)
  case Nil
  then show ?case by simp
next
  case (Cons a xs)
  then have "\<bar>a\<bar> \<le> c" "\<bar>sum_list xs\<bar> \<le> int (length xs) * c" by auto
  then show ?case by (simp add: algebra_simps)
qed

lemma mean_finite:
  assumes "xs \<noteq> []" "\<forall>x\<in>set xs. \<bar>x\<bar> \<le> 2 ^ 1023"
  shows "\<exists>m. int_truediv (sum_list xs) (int (length xs)) = Inr m"
proof -
  have n: "(0::rat) < of_int (int (length xs))" using assms(1) by simp
  have "\<bar>sum_list xs\<bar> \<le> int (length xs) * 2 ^ 1023" using assms(2) by (rule sum_list_abs_bound)
  then have "(of_int \<bar>sum_list xs\<bar> :: rat) \<le> of_int (int (length xs) * 2 ^ 1023)"
    by (simp only: of_int_le_iff)
  then have "\<bar>of_int (sum_list xs) :: rat\<bar> \<le> 2 ^ 1023 * of_int (int (length xs))"
    by (simp add: mult.commute)
  then have "\<bar>of_int (sum_list xs) :: rat\<bar> / of_int (int (length xs)) \<le> 2 ^ 1023"
    using n by (simp only: pos_divide_le_eq)
  then have "\<bar>of_int (sum_list xs) / of_int (int (length xs)) :: rat\<bar> \<le> 2 powi 1023"
    using n by (simp add: abs_divide)
  moreover have "int (length xs) \<noteq> 0" using assms(1) by simp
  ultimately show ?thesis using int_truediv_finite by blast
qed

lemma seg_loop_result:
  assumes "1 \<le> n" "n < 2 ^ 51" "1 \<le> N" "n = int (length data)"
    and "\<forall>i\<in>set js. 0 \<le> i \<and> i < N"
  shows "(\<forall>e. seg_loop (map fst data) (map snd data) n (Finite (seg_size n N)) N js acc = Inl e
              \<longrightarrow> e = OverflowError)
       \<and> (\<forall>segs. seg_loop (map fst data) (map snd data) n (Finite (seg_size n N)) N js acc = Inr segs
              \<longrightarrow> (\<forall>i\<in>set js. convertible i)
                \<and> map seg_shape segs
                    = map seg_shape acc
                      @ map (shape_of n N) (filter (\<lambda>i. bnd n N i < bnd n N (i + 1)) js))
       \<and> ((\<forall>i\<in>set js. convertible i \<and> convertible (i + 1)) \<and> (\<forall>e\<in>set data. \<bar>fst e\<bar> \<le> 2 ^ 1023)
              \<longrightarrow> (\<exists>segs. seg_loop (map fst data) (map snd data) n (Finite (seg_size n N)) N js acc
                            = Inr segs))"
  using assms(5)
proof (induction js arbitrary: acc)
  case Nil
  then show ?case by simp
next
  case (Cons i js)
  have i: "0 \<le> i" "i < N" using Cons.prems by auto
  have js: "\<forall>i\<in>set js. 0 \<le> i \<and> i < N" using Cons.prems by auto
  note IH = Cons.IH[OF js]
  note st = seg_start_cases[OF assms(1-3) i]
  note en = seg_end_cases[OF assms(1-3) i]
  show ?case
  proof (cases "convertible i")
    case False
    then show ?thesis by (simp add: st)
  next
    case ci: True
    show ?thesis
    proof (cases "i < N - 1 \<and> \<not> convertible (i + 1)")
      case True
      then show ?thesis using ci by (simp add: st en)
    next
      case ok: False
      then have en': "seg_end n (Finite (seg_size n N)) N i = Inr (bnd n N (i + 1))"
        by (simp only: en if_False)
      have st': "seg_start (Finite (seg_size n N)) i = Inr (bnd n N i)" using ci by (simp add: st)
      show ?thesis
      proof (cases "bnd n N i < bnd n N (i + 1)")
        case False
        then have step: "seg_loop (map fst data) (map snd data) n (Finite (seg_size n N)) N (i # js) acc
            = seg_loop (map fst data) (map snd data) n (Finite (seg_size n N)) N js acc"
          by (simp add: st' en')
        show ?thesis unfolding step using IH[of acc] ci False by simp
      next
        case True
        define a where "a = bnd n N i"
        define b where "b = bnd n N (i + 1)"
        have a0: "0 \<le> a" unfolding a_def using assms(1,3) i(1) by (intro bnd_nonneg) auto
        have "convertible (i + 1) \<or> N \<le> i + 1" using ok by auto
        then have bn: "b \<le> int (length data)"
          unfolding b_def using bnd_le[OF assms(1-3), of "i + 1"] i(1) assms(4) by simp
        have ab: "a < b" using True by (simp add: a_def b_def)
        have len: "int (length (py_slice data a b)) = b - a"
          using a0 ab bn by (intro length_py_slice) auto
        then have pos: "int (length (py_slice data a b)) \<noteq> 0" "py_slice data a b \<noteq> []"
          using ab by auto
        define seg where "seg = py_slice data a b"
        have seglen: "int (length seg) = b - a" "int (length seg) \<noteq> 0" "seg \<noteq> []"
          using len pos by (simp_all add: seg_def)
        have fc: "0 \<le> count_true (map snd seg)" "count_true (map snd seg) \<le> int (length seg)"
          using count_true_bounds[of "map snd seg"] by simp_all
        have "int (length seg) \<le> 2 ^ 53" using seglen(1) a0 bn assms(2,4) by simp
        moreover have "0 < int (length seg)" using seglen(1) ab by simp
        ultimately obtain rate where rate: "percent_rate (count_true (map snd seg)) (int (length seg)) = Inr rate"
          using percent_rate_total[OF fc] by blast
        show ?thesis
        proof (cases "int_truediv (sum_list (map fst seg)) (int (length seg))")
          case (Inl e)
          have e: "e = OverflowError" using int_truediv_error[OF seglen(2) Inl] .
          have step: "seg_loop (map fst data) (map snd data) n (Finite (seg_size n N)) N (i # js) acc
              = Inl OverflowError"
            using True Inl e
            by (simp add: st' en' Let_def py_slice_map a_def[symmetric] b_def[symmetric]
                seg_def[symmetric])
          have "\<not> (\<forall>e\<in>set data. \<bar>fst e\<bar> \<le> 2 ^ 1023)"
          proof
            assume h: "\<forall>e\<in>set data. \<bar>fst e\<bar> \<le> 2 ^ 1023"
            have "set seg \<subseteq> set data" unfolding seg_def by (rule set_py_slice)
            then have "\<forall>x\<in>set (map fst seg). \<bar>x\<bar> \<le> 2 ^ 1023" using h by auto
            moreover have "map fst seg \<noteq> []" using seglen(3) by simp
            ultimately obtain m where "int_truediv (sum_list (map fst seg)) (int (length (map fst seg))) = Inr m"
              using mean_finite by blast
            then show False using Inl by simp
          qed
          then show ?thesis unfolding step by simp
        next
          case (Inr avg)
          define rec where "rec = \<lparr>seg_index = i + 1, seg_first = a + 1, seg_last = b,
                             seg_count = int (length seg), seg_avg = avg,
                             seg_fails = count_true (map snd seg), seg_fail_rate = rate\<rparr>"
          have step: "seg_loop (map fst data) (map snd data) n (Finite (seg_size n N)) N (i # js) acc
              = seg_loop (map fst data) (map snd data) n (Finite (seg_size n N)) N js (acc @ [rec])"
            using True Inr rate
            by (simp add: st' en' Let_def py_slice_map a_def[symmetric] b_def[symmetric]
                seg_def[symmetric] rec_def)
          have sh: "seg_shape rec = shape_of n N i"
            by (simp add: seg_shape_def shape_of_def rec_def seglen(1) a_def b_def)
          show ?thesis unfolding step using IH[of "acc @ [rec]"] ci True ok sh by auto
        qed
      qed
    qed
  qed
qed

lemma py_range_bounds: "i \<in> set (py_range N) \<Longrightarrow> 0 \<le> i \<and> i < N"
  by (auto simp: py_range_def)

lemma segment_avgs_loop:
  assumes "data \<noteq> []" "int (length data) < 2 ^ 51" "1 \<le> N"
  shows "segment_avgs data N
           = seg_loop (map fst data) (map snd data) (int (length data))
               (Finite (seg_size (int (length data)) N)) N (py_range N) []"
proof -
  have n: "1 \<le> int (length data)" using assms(1) by (cases data) auto
  show ?thesis
    using assms(1) by (simp add: segment_avgs_def Let_def seg_size_truediv[OF n assms(2,3)])
qed

lemma seg_slice_shape:
  "seg_slice data g = (case seg_shape g of (ix, f, l, c) \<Rightarrow> py_slice data (f - 1) l)"
  by (simp add: seg_slice_def seg_shape_def)

lemma seg_count_shape: "seg_count g = (case seg_shape g of (ix, f, l, c) \<Rightarrow> c)"
  by (simp add: seg_shape_def)

lemma seg_index_shape: "seg_index g = (case seg_shape g of (ix, f, l, c) \<Rightarrow> ix)"
  by (simp add: seg_shape_def)

lemma map_via_shape:
  assumes "map seg_shape segs = map sh js" "\<And>g. h g = k (seg_shape g)"
  shows "map h segs = map (\<lambda>i. k (sh i)) js"
proof -
  have "map h segs = map k (map seg_shape segs)" using assms(2) by (simp add: comp_def)
  then show ?thesis by (simp add: assms(1) comp_def)
qed

lemma shapes_slices:
  assumes "map seg_shape segs = map (shape_of n N) js"
  shows "map (seg_slice data) segs = map (\<lambda>i. py_slice data (bnd n N i) (bnd n N (i + 1))) js"
  using map_via_shape[OF assms, of "seg_slice data" "\<lambda>s. case s of (ix, f, l, c) \<Rightarrow> py_slice data (f - 1) l"]
  by (simp add: seg_slice_shape shape_of_def)

lemma shapes_counts:
  assumes "map seg_shape segs = map (shape_of n N) js"
  shows "map seg_count segs = map (\<lambda>i. bnd n N (i + 1) - bnd n N i) js"
  using map_via_shape[OF assms, of seg_count "\<lambda>s. case s of (ix, f, l, c) \<Rightarrow> c"]
  by (simp add: seg_count_shape shape_of_def)

lemma shapes_indices:
  assumes "map seg_shape segs = map (shape_of n N) js"
  shows "map seg_index segs = map (\<lambda>i. i + 1) js"
  using map_via_shape[OF assms, of seg_index "\<lambda>s. case s of (ix, f, l, c) \<Rightarrow> ix"]
  by (simp add: seg_index_shape shape_of_def)


lemma concat_slices_upto:
  assumes "1 \<le> n" "n < 2 ^ 51" "1 \<le> N" "n = int (length data)"
    and "\<forall>i. 0 \<le> i \<and> i < N \<longrightarrow> convertible i" "k \<le> nat N"
  shows "concat (map (\<lambda>i. py_slice data (bnd n N i) (bnd n N (i + 1)))
            (filter (\<lambda>i. bnd n N i < bnd n N (i + 1)) (map int [0..<k])))
         = take (nat (bnd n N (int k))) data"
  using assms(6)
proof (induction k)
  case 0
  then show ?case using assms(3) by (simp add: bnd_0)
next
  case (Suc k)
  have k: "0 \<le> int k" "int k < N" using Suc.prems by auto
  have ck: "convertible (int k)" using assms(5) k by blast
  have IH: "concat (map (\<lambda>i. py_slice data (bnd n N i) (bnd n N (i + 1)))
            (filter (\<lambda>i. bnd n N i < bnd n N (i + 1)) (map int [0..<k])))
         = take (nat (bnd n N (int k))) data"
    using Suc by simp
  have b0: "0 \<le> bnd n N (int k)" using assms(1,3) by (intro bnd_nonneg) auto
  have b1: "bnd n N (int k) \<le> bnd n N (int k + 1)"
    using assms(1-3) k ck by (rule bnd_step)
  have "convertible (int k + 1) \<or> N \<le> int k + 1" using assms(5) k by force
  then have b2: "bnd n N (int k + 1) \<le> int (length data)"
    using bnd_le[OF assms(1-3), of "int k + 1"] assms(4) by simp
  have app: "take (nat (bnd n N (int k))) data
               @ py_slice data (bnd n N (int k)) (bnd n N (int k + 1))
             = take (nat (bnd n N (int k + 1))) data"
    using b0 b1 b2 by (rule take_append_py_slice)
  show ?case
  proof (cases "bnd n N (int k) < bnd n N (int k + 1)")
    case True
    then show ?thesis using IH app by (simp add: add.commute)
  next
    case False
    then have "bnd n N (int k + 1) = bnd n N (int k)" using b1 by simp
    then show ?thesis using IH False by (simp add: add.commute)
  qed
qed

lemma sum_counts_upto:
  assumes "1 \<le> n" "n < 2 ^ 51" "1 \<le> N"
    and "\<forall>i. 0 \<le> i \<and> i < N \<longrightarrow> convertible i" "k \<le> nat N"
  shows "sum_list (map (\<lambda>i. bnd n N (i + 1) - bnd n N i)
            (filter (\<lambda>i. bnd n N i < bnd n N (i + 1)) (map int [0..<k])))
         = bnd n N (int k)"
  using assms(5)
proof (induction k)
  case 0
  then show ?case using assms(3) by (simp add: bnd_0)
next
  case (Suc k)
  have k: "0 \<le> int k" "int k < N" using Suc.prems by auto
  have ck: "convertible (int k)" using assms(4) k by blast
  have IH: "sum_list (map (\<lambda>i. bnd n N (i + 1) - bnd n N i)
            (filter (\<lambda>i. bnd n N i < bnd n N (i + 1)) (map int [0..<k])))
         = bnd n N (int k)"
    using Suc by simp
  have b1: "bnd n N (int k) \<le> bnd n N (int k + 1)"
    using assms(1-3) k ck by (rule bnd_step)
  show ?case
  proof (cases "bnd n N (int k) < bnd n N (int k + 1)")
    case True
    then show ?thesis using IH by (simp add: add.commute)
  next
    case False
    then have "bnd n N (int k + 1) = bnd n N (int k)" using b1 by simp
    then show ?thesis using IH False by (simp add: add.commute)
  qed
qed

text \<open>What a returned list of segments looks like, and when the function returns.\<close>

lemma segment_avgs_result:
  assumes "data \<noteq> []" "int (length data) < 2 ^ 51" "1 \<le> N"
  shows "(\<forall>e. segment_avgs data N = Inl e \<longrightarrow> e = OverflowError)
       \<and> (\<forall>segs. segment_avgs data N = Inr segs
              \<longrightarrow> (\<forall>i. 0 \<le> i \<and> i < N \<longrightarrow> convertible i)
                \<and> map seg_shape segs
                    = map (shape_of (int (length data)) N)
                        (filter (\<lambda>i. bnd (int (length data)) N i < bnd (int (length data)) N (i + 1))
                           (py_range N)))
       \<and> (N \<le> 2 ^ 1023 \<and> (\<forall>e\<in>set data. \<bar>fst e\<bar> \<le> 2 ^ 1023)
              \<longrightarrow> (\<exists>segs. segment_avgs data N = Inr segs))"
proof -
  have n: "1 \<le> int (length data)" using assms(1) by (cases data) auto
  have r: "\<forall>i\<in>set (py_range N). 0 \<le> i \<and> i < N" using py_range_bounds by blast
  note res = seg_loop_result[OF n assms(2,3) refl r, of "[]"]
  have mem: "i \<in> set (py_range N)" if "0 \<le> i" "i < N" for i
  proof -
    have "nat i < nat N" "int (nat i) = i" using that by auto
    then show ?thesis unfolding py_range_def by (metis atLeast0LessThan imageI lessThan_iff set_map set_upt)
  qed
  have small: "convertible i \<and> convertible (i + 1)" if "N \<le> 2 ^ 1023" "i \<in> set (py_range N)" for i
  proof -
    have i: "0 \<le> i" "i + 1 \<le> 2 ^ 1023" using py_range_bounds[OF that(2)] that(1) by auto
    have up: "\<bar>of_int j :: rat\<bar> \<le> 2 powi 1023" if "0 \<le> j" "j \<le> 2 ^ 1023" for j :: int
    proof -
      have "(of_int j :: rat) \<le> of_int (2 ^ 1023)" using that(2) by (simp only: of_int_le_iff)
      then show ?thesis using that(1) by simp
    qed
    show ?thesis using up[of i] up[of "i + 1"] i by (auto intro!: convertible_small)
  qed
  show ?thesis
    unfolding segment_avgs_loop[OF assms]
    using res mem small by (auto simp del: seg_loop.simps)
qed

text \<open>With more segments than events, at most \<open>2^26\<close> of them, a boundary moves by at most one.\<close>

lemma RN_small_int:
  assumes "0 \<le> i" "i \<le> 2 ^ 26"
  shows "RN (of_int i) = of_int i"
  using assms by (intro RN_of_int) auto

lemma seg_size_below_one:
  assumes "1 \<le> n" "n < N" "N \<le> 2 ^ 26"
  shows "seg_size n N \<le> 1 - 1 / 2 ^ 26"
proof -
  have N0: "(0::rat) < of_int N" using assms(1,2) by simp
  have "(of_int N :: rat) \<le> of_int (2 ^ 26)" using assms(3) by (simp only: of_int_le_iff)
  then have N26: "(of_int N :: rat) \<le> 2 ^ 26" by simp
  have "(of_int n :: rat) \<le> of_int (N - 1)" using assms(2) by (simp only: of_int_le_iff)
  then have "(of_int n :: rat) / of_int N \<le> (of_int N - 1) / of_int N"
    using N0 by (intro divide_right_mono) auto
  also have "\<dots> = 1 - 1 / of_int N" using N0 by (simp add: field_simps)
  also have "\<dots> \<le> 1 - 1 / 2 ^ 26"
  proof -
    have "1 / (2::rat) ^ 26 \<le> 1 / of_int N" using N0 N26 by (intro divide_left_mono) auto
    then show ?thesis by simp
  qed
  finally have "RN (of_int n / of_int N) \<le> RN (1 - 1 / 2 ^ 26)" by (rule RN_mono)
  moreover have "RN (1 - 1 / 2 ^ 26) = 1 - 1 / 2 ^ 26"
  proof -
    have e: "(1 - 1 / 2 ^ 26 :: rat) = of_int (2 ^ 26 - 1) * 2 powi (- 26)"
      by (simp add: power_int_minus field_simps)
    show ?thesis unfolding e by (intro RN_dyadic) auto
  qed
  ultimately show ?thesis by (simp add: seg_size_def)
qed

lemma bnd_step_le_1:
  assumes "1 \<le> n" "n < N" "N \<le> 2 ^ 26" "0 \<le> i" "i < N"
  shows "bnd n N (i + 1) \<le> bnd n N i + 1"
proof -
  have P: "n < 2 ^ 51" "1 \<le> N" using assms(1,2,3) by auto
  have ci: "convertible j" if "0 \<le> j" "j \<le> N" for j
  proof -
    have "(of_int j :: rat) \<le> of_int (2 ^ 26)" using that(2) assms(3) by (simp only: of_int_le_iff)
    then have "(of_int j :: rat) \<le> 2 ^ 53" by simp
    then have "\<bar>of_int j :: rat\<bar> \<le> 2 powi 1023" using that(1) p53_le_p1023 by simp
    then show ?thesis by (rule convertible_small)
  qed
  define m where "m = bnd n N i"
  have m0: "0 \<le> m" unfolding m_def using assms(1,4) P(2) by (intro bnd_nonneg) auto
  have mn: "m \<le> n" unfolding m_def using bnd_le[OF assms(1) P assms(4)] ci[OF assms(4)] assms(5) by simp
  have Ri: "RN (of_int i) = (of_int i :: rat)" using assms(3,4,5) by (intro RN_small_int) auto
  have mdef: "m = \<lfloor>RN (of_int i * seg_size n N)\<rfloor>" using assms(5) by (simp add: m_def bnd_def Ri)
  show ?thesis
  proof (cases "i + 1 < N")
    case True
    have Ri1: "RN (of_int (i + 1)) = (of_int (i + 1) :: rat)"
      using assms(3,4) True by (intro RN_small_int) auto
    have lt: "of_int i * seg_size n N < of_int (m + 1)"
    proof (rule ccontr)
      assume "\<not> of_int i * seg_size n N < of_int (m + 1)"
      then have "of_int (m + 1) \<le> of_int i * seg_size n N" by simp
      then have "of_int (m + 1) \<le> RN (of_int i * seg_size n N)"
        using m0 mn assms(2,3) by (intro RN_ge_of_int) auto
      then have "m + 1 \<le> \<lfloor>RN (of_int i * seg_size n N)\<rfloor>" by (simp only: le_floor_iff)
      then show False using mdef by simp
    qed
    define y :: rat where "y = of_int (m + 2) - 1 / 2 ^ 26"
    have "of_int (i + 1) * seg_size n N = of_int i * seg_size n N + seg_size n N"
      by (simp add: algebra_simps)
    also have "\<dots> \<le> of_int (m + 1) + (1 - 1 / 2 ^ 26)"
      using lt seg_size_below_one[OF assms(1-3)] by linarith
    also have "\<dots> = y" by (simp add: y_def)
    finally have "RN (of_int (i + 1) * seg_size n N) \<le> RN y" by (rule RN_mono)
    moreover have "RN y = y"
    proof -
      have e: "y = of_int ((m + 2) * 2 ^ 26 - 1) * 2 powi (- 26)"
        by (simp add: y_def power_int_minus field_simps)
      have "(m + 2) * 2 ^ 26 \<le> (2 ^ 26 + 1) * 2 ^ 26"
        using mn assms(2,3) by (intro mult_right_mono) auto
      then have "\<bar>(m + 2) * 2 ^ 26 - 1\<bar> \<le> 2 ^ 53" using m0 by simp
      then show ?thesis unfolding e by (intro RN_dyadic) auto
    qed
    moreover have "y < of_int (m + 2)" by (simp add: y_def)
    ultimately have "RN (of_int (i + 1) * seg_size n N) < of_int (m + 2)" by linarith
    then have "\<lfloor>RN (of_int (i + 1) * seg_size n N)\<rfloor> < m + 2" by (simp only: floor_less_iff)
    moreover have "bnd n N (i + 1) = \<lfloor>RN (of_int (i + 1) * seg_size n N)\<rfloor>"
      unfolding bnd_def if_P[OF True] Ri1 ..
    ultimately have "bnd n N (i + 1) < m + 2" by simp
    then show ?thesis by (simp add: m_def)
  next
    case False
    then have iN: "i = N - 1" using assms(5) by simp
    define x :: rat where "x = of_int n / of_int N"
    define u :: rat where "u = 1 / 2 ^ 53"
    have N0: "(0::rat) < of_int N" using assms(1,2) by simp
    have "(of_int N :: rat) \<le> of_int (2 ^ 26)" using assms(3) by (simp only: of_int_le_iff)
    then have N26: "(of_int N :: rat) \<le> 2 ^ 26" by simp
    have n1: "(1::rat) \<le> of_int n" using assms(1) by simp
    have "(of_int n :: rat) \<le> of_int (N - 1)" using assms(2) by (simp only: of_int_le_iff)
    then have nN: "(of_int n :: rat) \<le> of_int N - 1" by simp
    have x0: "0 < x" unfolding x_def using n1 N0 by (intro divide_pos_pos) auto
    have invN: "1 / 2 ^ 26 \<le> 1 / (of_int N :: rat)" using N0 N26 by (intro divide_left_mono) auto
    have "1 / (of_int N :: rat) \<le> x" unfolding x_def using n1 N0 by (intro divide_right_mono) auto
    then have xlow: "1 / 2 ^ 26 \<le> x" using invN by linarith
    have "(2::rat) powi (- 1022) \<le> 2 powi (- 26)" by (intro power_int_increasing) auto
    then have "(2::rat) powi (- 1022) \<le> 1 / 2 ^ 26" by (simp add: power_int_minus field_simps)
    then have "2 powi (- 1022) \<le> x" using xlow by linarith
    then have "\<bar>RN x - x\<bar> \<le> x / 2 ^ 53" by (rule RN_error_rel)
    then have sr: "x - x * u \<le> seg_size n N" by (simp add: seg_size_def x_def u_def)
    have xN: "of_int N * x = of_int n" using N0 by (simp add: x_def)
    have "x \<le> (of_int N - 1) / of_int N" unfolding x_def using nN N0 by (intro divide_right_mono) auto
    also have "\<dots> = 1 - 1 / of_int N" using N0 by (simp add: field_simps)
    finally have x1: "x \<le> 1 - 1 / of_int N" .
    have "(of_int N - 1) * x * u \<le> of_int n * u"
    proof -
      have "(of_int N - 1) * x \<le> of_int N * x" using x0 by (simp add: algebra_simps)
      then have "(of_int N - 1) * x \<le> of_int n" by (simp add: xN)
      moreover have "0 \<le> u" by (simp add: u_def)
      ultimately show ?thesis by (rule mult_right_mono)
    qed
    also have "of_int n * u \<le> 2 ^ 26 * u" using nN N26 by (intro mult_right_mono) (auto simp: u_def)
    also have "(2::rat) ^ 26 * u \<le> 1 / 2 ^ 26" by (simp add: u_def)
    finally have err: "(of_int N - 1) * x * u \<le> 1 / of_int N" using invN by linarith
    have N1: "(0::rat) \<le> of_int N - 1" using assms(1,2) by simp
    have "(of_int N - 1) * (x - x * u) \<le> (of_int N - 1) * seg_size n N"
      using sr N1 by (rule mult_left_mono)
    moreover have "(of_int N - 1) * (x - x * u) = of_int n - x - (of_int N - 1) * x * u"
      using xN by (simp add: algebra_simps)
    ultimately have "of_int n - x - 1 / of_int N \<le> (of_int N - 1) * seg_size n N"
      using err by linarith
    then have "of_int n - 1 \<le> (of_int N - 1) * seg_size n N" using x1 by linarith
    then have "of_int (n - 1) \<le> of_int i * seg_size n N" by (simp add: iN)
    then have "of_int (n - 1) \<le> RN (of_int i * seg_size n N)"
      using assms(1,2,3) by (intro RN_ge_of_int) auto
    then have "n - 1 \<le> \<lfloor>RN (of_int i * seg_size n N)\<rfloor>" by (simp only: le_floor_iff)
    then have "n - 1 \<le> m" by (simp add: mdef)
    moreover have "bnd n N (i + 1) = n" using False by (simp add: bnd_def)
    ultimately show ?thesis by (simp add: m_def)
  qed
qed

lemma singletons_of_concat:
  assumes "\<forall>xs\<in>set xss. length xs = 1"
  shows "xss = map (\<lambda>e. [e]) (concat xss)"
  using assms
proof (induction xss)
  case Nil
  then show ?case by simp
next
  case (Cons xs xss)
  then have "length xs = 1" by simp
  then obtain e where "xs = [e]" by (cases xs) auto
  then show ?case using Cons by simp
qed

lemma sum_list_all_one:
  fixes xs :: "int list"
  assumes "\<forall>x\<in>set xs. x = 1"
  shows "sum_list xs = int (length xs)"
  using assms by (induction xs) auto

text \<open>Concrete boundaries and quotients.\<close>

lemma RN_numeral:
  assumes "(numeral w :: int) \<le> 2 ^ 53"
  shows "RN (numeral w) = numeral w"
  using RN_of_int[of "numeral w"] assms by simp

lemma RN_1 [simp]: "RN 1 = 1"
  using RN_of_int[of 1] by simp

lemma RN_quarters: "RN (1 / 4) = 1 / 4" "RN (1 / 2) = 1 / 2" "RN (3 / 4) = 3 / 4"
  using RN_dyadic[of 1 "- 2"] RN_dyadic[of 1 "- 1"] RN_dyadic[of 3 "- 2"]
  by (simp_all add: power_int_minus)

lemma floor_quarters: "\<lfloor>1 / 4 :: rat\<rfloor> = 0" "\<lfloor>1 / 2 :: rat\<rfloor> = 0" "\<lfloor>3 / 4 :: rat\<rfloor> = 0"
  by linarith+

lemma py_range_4: "py_range 4 = [0, 1, 2, 3]"
  by (simp add: py_range_def upt_rec)

lemma bnd_1_4: "bnd 1 4 0 = 0" "bnd 1 4 1 = 0" "bnd 1 4 2 = 0" "bnd 1 4 3 = 0" "bnd 1 4 4 = 1"
  by (simp_all add: bnd_def seg_size_def RN_quarters RN_numeral floor_quarters)

lemma bnd_1_1: "bnd 1 1 0 = 0" "bnd 1 1 1 = 1"
  by (simp_all add: bnd_def seg_size_def)

lemma bnd_1_2: "bnd 1 2 0 = 0" "bnd 1 2 1 = 0" "bnd 1 2 2 = 1"
  by (simp_all add: bnd_def seg_size_def RN_quarters floor_quarters)

lemma convertible_small_numerals: "convertible 0" "convertible 1" "convertible 2"
  by (simp_all add: convertible_def RN_numeral)

lemma round_double_huge:
  assumes "2 powi 1024 \<le> x"
  shows "round_double x = PosInf"
proof -
  have "RN (2 powi 1024) \<le> RN x" using assms by (rule RN_mono)
  moreover have "RN (2 powi 1024) = (2::rat) powi 1024" by (rule RN_pow2) simp
  ultimately show ?thesis by (simp add: round_double_def Let_def)
qed

lemma int_truediv_huge: "int_truediv (10 ^ 400) 1 = Inl OverflowError"
proof -
  have "(8::rat) ^ 400 \<le> 10 ^ 400" by (rule power_mono) auto
  moreover have "(8::rat) ^ 400 = 2 ^ 1200" 
  proof -
    have "(8::rat) = 2 ^ 3" by simp
    then have "(8::rat) ^ 400 = (2 ^ 3) ^ 400" by simp
    also have "\<dots> = 2 ^ (3 * 400)" by (rule power_mult[symmetric])
    finally show ?thesis by simp
  qed
  moreover have "(2::rat) ^ 1024 \<le> 2 ^ 1200" by (rule power_increasing) auto
  ultimately have "(2::rat) ^ 1024 \<le> 10 ^ 400" by linarith
  then have "(2::rat) powi 1024 \<le> of_int (10 ^ 400) / of_int 1" by simp
  then have "round_double (of_int (10 ^ 400) / of_int 1) = PosInf" by (rule round_double_huge)
  then show ?thesis unfolding int_truediv_def by (simp add: finite_or_overflow_def)
qed

lemma py_slice_single: "py_slice [x] 0 1 = [x]"
  by (simp add: py_slice_def slice_bound_def)

lemma single_event_one_segment:
  assumes "int_truediv d 1 = Inl e"
  shows "segment_avgs [(d, fl)] 1 = Inl e"
proof -
  have r: "py_range 1 = [0]" by (simp add: py_range_def)
  have a: "(1::int) \<le> 1" "(1::int) < 2 ^ 51" "(0::int) \<le> 0" "(0::int) < 1" by simp_all
  note st = seg_start_cases[OF a(1,2,1,3,4)]
  note en = seg_end_cases[OF a(1,2,1,3,4)]
  show ?thesis
    using assms
    by (simp add: segment_avgs_loop r st en convertible_small_numerals bnd_1_1 py_slice_single)
qed

lemma single_event_two_segments:
  assumes "int_truediv d 1 = Inl e"
  shows "segment_avgs [(d, fl)] 2 = Inl e"
proof -
  have r: "py_range 2 = [0, 1]" by (simp add: py_range_def upt_rec)
  have a: "(1::int) \<le> 1" "(1::int) < 2 ^ 51" "(1::int) \<le> 2" "(0::int) \<le> 0" "(0::int) < 2"
    "(0::int) \<le> 1" "(1::int) < 2" by simp_all
  note st0 = seg_start_cases[OF a(1,2,3,4,5)]
  note en0 = seg_end_cases[OF a(1,2,3,4,5)]
  note st1 = seg_start_cases[OF a(1,2,3,6,7)]
  note en1 = seg_end_cases[OF a(1,2,3,6,7)]
  show ?thesis
    using assms
    by (simp add: segment_avgs_loop r st0 en0 st1 en1 convertible_small_numerals bnd_1_2
        py_slice_single)
qed

section \<open>Claims about segment_avgs\<close>

text \<open>
  Claim C1, as stated, fails: for the series of one event of \<open>10^400\<close> ms and one
  segment the mean of the only segment does not fit a float, line 65 raises
  OverflowError and no segment is returned.
\<close>

theorem segments_overflow_counterexample:
  "segment_avgs [(10 ^ 400, False)] 1 = Inl OverflowError"
  using int_truediv_huge by (rule single_event_one_segment)

text \<open>
  Claim C1, amended. For every series of fewer than \<open>2^51\<close> events and every
  \<open>num_segments \<ge> 1\<close>: whenever segment_avgs returns, the slices \<^verbatim>\<open>data[start:end]\<close>
  of the emitted segments, concatenated in emission order, are the series itself, and
  the counts of the emitted segments add up to its length; it returns when
  \<open>num_segments\<close> and the durations are at most \<open>2^1023\<close>; and it raises nothing but
  OverflowError.
\<close>

theorem segments_partition_series:
  assumes "int (length data) < 2 ^ 51" "1 \<le> num_segments"
  shows "(\<forall>segs. segment_avgs data num_segments = Inr segs
            \<longrightarrow> concat (map (seg_slice data) segs) = data
              \<and> sum_list (map seg_count segs) = int (length data))
       \<and> (num_segments \<le> 2 ^ 1023 \<and> (\<forall>e\<in>set data. \<bar>fst e\<bar> \<le> 2 ^ 1023)
            \<longrightarrow> (\<exists>segs. segment_avgs data num_segments = Inr segs))
       \<and> (\<forall>e. segment_avgs data num_segments = Inl e \<longrightarrow> e = OverflowError)"
proof (cases "data = []")
  case True
  then show ?thesis by (simp add: segment_avgs_def)
next
  case False
  define n where "n = int (length data)"
  have n: "1 \<le> n" "n < 2 ^ 51" using False assms(1) by (cases data; simp add: n_def)+
  note res = segment_avgs_result[OF False assms]
  have "concat (map (seg_slice data) segs) = data \<and> sum_list (map seg_count segs) = int (length data)"
    if segs: "segment_avgs data num_segments = Inr segs" for segs
  proof -
    have conv: "\<forall>i. 0 \<le> i \<and> i < num_segments \<longrightarrow> convertible i"
      and sh: "map seg_shape segs = map (shape_of n num_segments)
                 (filter (\<lambda>i. bnd n num_segments i < bnd n num_segments (i + 1))
                    (py_range num_segments))"
      using res segs by (simp_all add: n_def)
    have k: "nat num_segments \<le> nat num_segments" by simp
    have full: "bnd n num_segments (int (nat num_segments)) = n"
      using assms(2) by (simp add: bnd_full)
    have "concat (map (seg_slice data) segs) = take (nat n) data"
      unfolding shapes_slices[OF sh]
      using concat_slices_upto[OF n assms(2) n_def conv k] full by (simp add: py_range_def)
    moreover have "sum_list (map seg_count segs) = n"
      unfolding shapes_counts[OF sh]
      using sum_counts_upto[OF n assms(2) conv k] full by (simp add: py_range_def)
    ultimately show ?thesis by (simp add: n_def)
  qed
  then show ?thesis using res by blast
qed

theorem segments_partition_series_witness:
  "\<exists>segs. segment_avgs [(5, False), (6, True), (7, False)] 2 = Inr segs
           \<and> concat (map (seg_slice [(5, False), (6, True), (7, False)]) segs)
               = [(5, False), (6, True), (7, False)]
           \<and> sum_list (map seg_count segs) = 3"
  using segments_partition_series[of "[(5, False), (6, True), (7, False)]" 2] by auto



text \<open>
  Claim C6, as stated, fails: for the series of one event of \<open>10^400\<close> ms and two
  segments, the first segment is skipped and the mean of the second does not fit a
  float: line 65 raises OverflowError and no segment is emitted.
\<close>

theorem more_segments_overflow_counterexample:
  "segment_avgs [(10 ^ 400, False)] 2 = Inl OverflowError"
  using int_truediv_huge by (rule single_event_two_segments)

text \<open>
  Claim C6, amended. For a non-empty series of length \<open>n\<close> whose durations are at most
  \<open>2^1023\<close> and \<open>n < num_segments \<le> 2^26\<close>, segment_avgs emits exactly \<open>n\<close> segments,
  the \<open>j\<close>-th of which holds exactly the \<open>j\<close>-th event; the requested segments whose
  start is not below their end are skipped and leave no record. Beyond \<open>2^26\<close> segments
  the rounding of \<^verbatim>\<open>i * seg_size\<close> can move a boundary by two.
\<close>

theorem more_segments_than_events:
  assumes "data \<noteq> []" "int (length data) < num_segments" "num_segments \<le> 2 ^ 26"
    and "\<forall>e\<in>set data. \<bar>fst e\<bar> \<le> 2 ^ 1023"
  shows "\<exists>segs. segment_avgs data num_segments = Inr segs
           \<and> length segs = length data
           \<and> (\<forall>g\<in>set segs. seg_count g = 1)
           \<and> map (seg_slice data) segs = map (\<lambda>e. [e]) data"
proof -
  define n where "n = int (length data)"
  define N where "N = num_segments"
  have n: "1 \<le> n" "n < 2 ^ 51" using assms(1,2,3) by (cases data; simp add: n_def)+
  have N: "1 \<le> N" "n < N" "N \<le> 2 ^ 26" "N \<le> 2 ^ 1023" using assms(2,3) n(1) by (simp_all add: n_def N_def)
  have len: "int (length data) < 2 ^ 51" using n(2) by (simp add: n_def)
  note res = segment_avgs_result[OF assms(1) len N(1)]
  obtain segs where segs: "segment_avgs data N = Inr segs" using res N(4) assms(4) by blast
  have conv: "\<forall>i. 0 \<le> i \<and> i < N \<longrightarrow> convertible i"
    and sh: "map seg_shape segs = map (shape_of n N)
               (filter (\<lambda>i. bnd n N i < bnd n N (i + 1)) (py_range N))"
    using res segs by (simp_all add: n_def)
  have k: "nat N \<le> nat N" by simp
  have full: "bnd n N (int (nat N)) = n" using N(1) by (simp add: bnd_full)
  have cat: "concat (map (seg_slice data) segs) = data"
    unfolding shapes_slices[OF sh]
    using concat_slices_upto[OF n N(1) n_def conv k] full by (simp add: py_range_def n_def)
  have one: "bnd n N (i + 1) - bnd n N i = 1"
    if "i \<in> set (filter (\<lambda>i. bnd n N i < bnd n N (i + 1)) (py_range N))" for i
  proof -
    have i: "0 \<le> i" "i < N" "bnd n N i < bnd n N (i + 1)"
      using that py_range_bounds[of i N] by auto
    show ?thesis using bnd_step_le_1[OF n(1) N(2,3) i(1,2)] i(3) by simp
  qed
  have counts: "\<forall>g\<in>set segs. seg_count g = 1"
  proof
    fix g assume "g \<in> set segs"
    then have "seg_count g \<in> set (map seg_count segs)" by simp
    then show "seg_count g = 1" unfolding shapes_counts[OF sh] using one by auto
  qed
  have lens: "\<forall>xs\<in>set (map (seg_slice data) segs). length xs = 1"
  proof
    fix xs assume "xs \<in> set (map (seg_slice data) segs)"
    then obtain i where i: "i \<in> set (filter (\<lambda>i. bnd n N i < bnd n N (i + 1)) (py_range N))"
        and xs: "xs = py_slice data (bnd n N i) (bnd n N (i + 1))"
      unfolding shapes_slices[OF sh] by auto
    have ib: "0 \<le> i" "i < N" "bnd n N i < bnd n N (i + 1)"
      using i py_range_bounds[of i N] by auto
    have b0: "0 \<le> bnd n N i" using n(1) N(1) ib(1) by (intro bnd_nonneg) auto
    have "convertible (i + 1) \<or> N \<le> i + 1" using conv ib by force
    then have b2: "bnd n N (i + 1) \<le> int (length data)"
      using bnd_le[OF n N(1), of "i + 1"] ib(1) by (simp add: n_def)
    have "int (length xs) = bnd n N (i + 1) - bnd n N i"
      unfolding xs using b0 ib(3) b2 by (intro length_py_slice) auto
    then show "length xs = 1" using one[OF i] by simp
  qed
  have slices: "map (seg_slice data) segs = map (\<lambda>e. [e]) data"
    using singletons_of_concat[OF lens] cat by simp
  have "length (map (seg_slice data) segs) = length (map (\<lambda>e. [e]) data)"
    by (simp only: slices)
  then have "length segs = length data" by simp
  then show ?thesis using segs counts slices by (auto simp: N_def)
qed

theorem more_segments_than_events_witness:
  "\<exists>segs. segment_avgs [(5, False), (6, True), (7, False)] 7 = Inr segs
           \<and> length segs = length [(5, False), (6, True), (7 :: int, False)]
           \<and> (\<forall>g\<in>set segs. seg_count g = 1)
           \<and> map (seg_slice [(5, False), (6, True), (7, False)]) segs
               = map (\<lambda>e. [e]) [(5, False), (6, True), (7, False)]"
  by (rule more_segments_than_events) simp_all

text \<open>
  Claim C4 describes the index as the position in emission order, and line 124 of the
  script numbers the segments that way; the records of segment_avgs carry the loop index
  plus one instead. For every series of fewer than \<open>2^51\<close> events and every
  \<open>num_segments \<ge> 1\<close>, the indices of the returned segments are \<open>i + 1\<close> for the
  \<open>i\<close> of \<^verbatim>\<open>range(num_segments)\<close> whose start is below their end (\<open>bnd\<close> is the bound
  the loop computes), so they are not consecutive from 1 once a segment is skipped: a
  series of one event cut into four segments has its only record numbered 4.
\<close>

theorem segment_index_is_loop_index:
  assumes "int (length data) < 2 ^ 51" "1 \<le> num_segments"
    and "segment_avgs data num_segments = Inr segs"
  shows "map seg_index segs
           = map (\<lambda>i. i + 1)
               (filter (\<lambda>i. bnd (int (length data)) num_segments i
                              < bnd (int (length data)) num_segments (i + 1))
                  (if data = [] then [] else py_range num_segments))"
proof (cases "data = []")
  case True
  then show ?thesis using assms(3) by (auto simp: segment_avgs_def)
next
  case False
  have sh: "map seg_shape segs = map (shape_of (int (length data)) num_segments)
               (filter (\<lambda>i. bnd (int (length data)) num_segments i
                              < bnd (int (length data)) num_segments (i + 1))
                  (py_range num_segments))"
    using segment_avgs_result[OF False assms(1,2)] assms(3) by simp
  show ?thesis unfolding shapes_indices[OF sh] using False by simp
qed

theorem segment_index_is_loop_index_witness:
  "\<exists>segs. segment_avgs [(5, False)] 4 = Inr segs
           \<and> map seg_index segs = [4]
           \<and> \<not> emission_order_indices segs"
proof -
  obtain segs where segs: "segment_avgs [(5, False)] 4 = Inr segs"
    using segment_avgs_result[of "[(5, False)]" 4] by auto
  have "map seg_index segs = [4]"
    using segment_index_is_loop_index[OF _ _ segs] by (simp add: py_range_4 bnd_1_4)
  moreover from this have "length segs = 1" by (metis length_map length_Cons list.size(3) One_nat_def)
  ultimately have "\<not> emission_order_indices segs" by (simp add: emission_order_indices_def)
  then show ?thesis using segs \<open>map seg_index segs = [4]\<close> by (intro exI[of _ segs] conjI)
qed

end
